theory Spec2Isabelle
  imports Main "HOL-Library.Word"
begin

unbundle bit_operations_syntax

section \<open>Constants and basic types\<close>

text \<open>
  The header \<^verbatim>\<open>db/types.hpp\<close> (constants, \<^verbatim>\<open>Page\<close>, \<^verbatim>\<open>PageId\<close>, \<^verbatim>\<open>field_t\<close>,
  \<^verbatim>\<open>type_t\<close>) is not among the sources. The constants below are taken from section 6 of the
  specification; the buffer-pool size \<^verbatim>\<open>DEFAULT_NUM_PAGES\<close> is a parameter of the pool.
\<close>

type_synonym u8 = "8 word"
type_synonym i32 = "32 word"
type_synonym u64 = "64 word"

definition DEFAULT_PAGE_SIZE :: nat where
  \<comment> \<open>Modelled from the spec: \<^verbatim>\<open>DEFAULT_PAGE_SIZE\<close> of types.hpp, "PAGE_SIZE = 4096 bytes".\<close>
  "DEFAULT_PAGE_SIZE = 4096"

definition INT_SIZE :: nat where
  \<comment> \<open>Modelled from the spec: \<^verbatim>\<open>INT_SIZE\<close> of types.hpp, "INT_SIZE = 4".\<close>
  "INT_SIZE = 4"

definition DOUBLE_SIZE :: nat where
  \<comment> \<open>Modelled from the spec: \<^verbatim>\<open>DOUBLE_SIZE\<close> of types.hpp, "DOUBLE_SIZE = 8".\<close>
  "DOUBLE_SIZE = 8"

definition CHAR_SIZE :: nat where
  \<comment> \<open>Modelled from the spec: \<^verbatim>\<open>CHAR_SIZE\<close> of types.hpp, "configurable (typical 64)".\<close>
  "CHAR_SIZE = 64"

text \<open>The exceptions the sources throw.\<close>

datatype error =
    LogicError        \<comment> \<open>\<^verbatim>\<open>std::logic_error\<close>\<close>
  | OutOfRange        \<comment> \<open>\<^verbatim>\<open>std::out_of_range\<close>\<close>
  | RuntimeError      \<comment> \<open>\<^verbatim>\<open>std::runtime_error\<close>\<close>
  | BadVariantAccess  \<comment> \<open>\<^verbatim>\<open>std::bad_variant_access\<close> of \<^verbatim>\<open>std::get\<close>\<close>
  | Undefined         \<comment> \<open>undefined behaviour: \<^verbatim>\<open>back()\<close> of an empty container\<close>

section \<open>Tuple and TupleDesc (Tuple.cpp)\<close>

datatype type_t = T_INT | T_DOUBLE | T_CHAR  \<comment> \<open>\<^verbatim>\<open>type_t::INT\<close>, \<^verbatim>\<open>DOUBLE\<close>, \<^verbatim>\<open>CHAR\<close>\<close>

text \<open>
  \<^verbatim>\<open>field_t = std::variant<int, double, std::string>\<close>. An \<^verbatim>\<open>int\<close> is a 32-bit word
  (compared as signed), a \<^verbatim>\<open>std::string\<close> a list of bytes. A \<^verbatim>\<open>double\<close> is only ever
  copied with \<^verbatim>\<open>memcpy\<close> here, so it is represented by its 8-byte object representation.
\<close>

datatype field_t = IntF i32 | DoubleF u64 | CharF "u8 list"

type_synonym Tuple = "field_t list"

fun holds_type :: "field_t \<Rightarrow> type_t" where
  "holds_type (IntF v) = T_INT"
| "holds_type (DoubleF v) = T_DOUBLE"
| "holds_type (CharF s) = T_CHAR"

definition get_field :: "Tuple \<Rightarrow> nat \<Rightarrow> error + field_t" where
  "get_field t i = (if i < length t then Inr (t ! i) else Inl OutOfRange)"

definition Tuple_field_type :: "Tuple \<Rightarrow> nat \<Rightarrow> error + type_t" where
  "Tuple_field_type t i = (if i < length t then Inr (holds_type (t ! i)) else Inl OutOfRange)"

definition get_int :: "error + field_t \<Rightarrow> error + i32" where
  \<comment> \<open>\<^verbatim>\<open>std::get<int>(...)\<close>\<close>
  "get_int r = (case r of Inl e \<Rightarrow> Inl e | Inr (IntF v) \<Rightarrow> Inr v | Inr _ \<Rightarrow> Inl BadVariantAccess)"

text \<open>
  The members \<^verbatim>\<open>types_\<close>, \<^verbatim>\<open>names_\<close>, \<^verbatim>\<open>offsets_\<close> and \<^verbatim>\<open>length_\<close> of the class (the
  map \<^verbatim>\<open>name2idx_\<close> is not used by the functions below).
\<close>

record TupleDesc =
  td_types :: "type_t list"
  td_names :: "string list"
  td_offsets :: "nat list"
  td_length :: nat

definition size_of_fixed :: "type_t \<Rightarrow> nat" where
  "size_of_fixed ty = (case ty of T_INT \<Rightarrow> INT_SIZE | T_DOUBLE \<Rightarrow> DOUBLE_SIZE | T_CHAR \<Rightarrow> CHAR_SIZE)"

text \<open>The constructor's loop: \<^verbatim>\<open>offsets[i] = off; off += size_of_fixed(types[i])\<close>.\<close>

fun offsets_from :: "nat \<Rightarrow> type_t list \<Rightarrow> nat list \<times> nat" where
  "offsets_from off [] = ([], off)"
| "offsets_from off (ty # tys) =
     (let (os, len) = offsets_from (off + size_of_fixed ty) tys in (off # os, len))"

definition TupleDesc_new :: "type_t list \<Rightarrow> string list \<Rightarrow> error + TupleDesc" where
  "TupleDesc_new tys nms =
     (if length tys \<noteq> length nms then Inl LogicError
      else if \<not> distinct nms then Inl LogicError
      else let (os, len) = offsets_from 0 tys
           in Inr \<lparr>td_types = tys, td_names = nms, td_offsets = os, td_length = len\<rparr>)"

definition compatible :: "TupleDesc \<Rightarrow> Tuple \<Rightarrow> bool" where
  "compatible td t =
     (if length t \<noteq> length (td_types td) then False
      else list_all (\<lambda>i. holds_type (t ! i) = td_types td ! i) [0..<length (td_types td)])"

text \<open>
  \<^verbatim>\<open>memcpy(dst + off, src, length src)\<close> on a buffer or an array: the elements at
  \<open>[off, off + length src)\<close> are replaced. The callers keep the range inside the buffer
  (outside it the C++ is undefined). Offsets and lengths count elements of the array.
\<close>

definition memcpy :: "'a list \<Rightarrow> nat \<Rightarrow> 'a list \<Rightarrow> 'a list" where
  "memcpy buf off src = take off buf @ src @ drop (off + length src) buf"

text \<open>Object representations on the little-endian host.\<close>

definition int_to_bytes :: "i32 \<Rightarrow> u8 list" where
  "int_to_bytes v = [ucast v, ucast (drop_bit 8 v), ucast (drop_bit 16 v), ucast (drop_bit 24 v)]"

definition bytes_to_int :: "u8 list \<Rightarrow> i32" where
  "bytes_to_int bs =
     ucast (bs ! 0) OR push_bit 8 (ucast (bs ! 1)) OR push_bit 16 (ucast (bs ! 2))
       OR push_bit 24 (ucast (bs ! 3))"

definition double_to_bytes :: "u64 \<Rightarrow> u8 list" where
  "double_to_bytes v =
     [ucast v, ucast (drop_bit 8 v), ucast (drop_bit 16 v), ucast (drop_bit 24 v),
      ucast (drop_bit 32 v), ucast (drop_bit 40 v), ucast (drop_bit 48 v), ucast (drop_bit 56 v)]"

definition bytes_to_double :: "u8 list \<Rightarrow> u64" where
  "bytes_to_double bs =
     ucast (bs ! 0) OR push_bit 8 (ucast (bs ! 1)) OR push_bit 16 (ucast (bs ! 2))
       OR push_bit 24 (ucast (bs ! 3)) OR push_bit 32 (ucast (bs ! 4))
       OR push_bit 40 (ucast (bs ! 5)) OR push_bit 48 (ucast (bs ! 6))
       OR push_bit 56 (ucast (bs ! 7))"

text \<open>One iteration of the loop of \<^verbatim>\<open>TupleDesc::serialize\<close>.\<close>

definition serialize_field :: "TupleDesc \<Rightarrow> Tuple \<Rightarrow> u8 list \<Rightarrow> nat \<Rightarrow> error + u8 list" where
  "serialize_field td t data i =
     (let ptr = td_offsets td ! i in
      case td_types td ! i of
        T_INT \<Rightarrow> (case get_field t i of
                  Inl e \<Rightarrow> Inl e
                | Inr (IntF v) \<Rightarrow> Inr (memcpy data ptr (int_to_bytes v))
                | Inr _ \<Rightarrow> Inl BadVariantAccess)
      | T_DOUBLE \<Rightarrow> (case get_field t i of
                  Inl e \<Rightarrow> Inl e
                | Inr (DoubleF v) \<Rightarrow> Inr (memcpy data ptr (double_to_bytes v))
                | Inr _ \<Rightarrow> Inl BadVariantAccess)
      | T_CHAR \<Rightarrow> (case get_field t i of
                  Inl e \<Rightarrow> Inl e
                | Inr (CharF s) \<Rightarrow>
                    (let n = (if length s > CHAR_SIZE then CHAR_SIZE else length s);
                         d1 = memcpy data ptr (take n s)
                     in Inr (if n < CHAR_SIZE
                             then memcpy d1 (ptr + n) (replicate (CHAR_SIZE - n) 0)
                             else d1))
                | Inr _ \<Rightarrow> Inl BadVariantAccess))"

fun serialize_loop :: "TupleDesc \<Rightarrow> Tuple \<Rightarrow> nat list \<Rightarrow> u8 list \<Rightarrow> error + u8 list" where
  "serialize_loop td t [] data = Inr data"
| "serialize_loop td t (i # is) data =
     (case serialize_field td t data i of
        Inl e \<Rightarrow> Inl e
      | Inr data' \<Rightarrow> serialize_loop td t is data')"

text \<open>
  \<^verbatim>\<open>TupleDesc::serialize(data, t)\<close>: \<open>data\<close> is the memory from the pointer on; the
  result is that memory after the writes.
\<close>

definition serialize :: "TupleDesc \<Rightarrow> u8 list \<Rightarrow> Tuple \<Rightarrow> error + u8 list" where
  "serialize td data t =
     (if \<not> compatible td t then Inl LogicError
      else serialize_loop td t [0..<length (td_types td)] data)"

text \<open>The scan \<^verbatim>\<open>while (len < CHAR_SIZE && csrc[len] != '\0') ++len\<close>.\<close>

function char_len :: "u8 list \<Rightarrow> nat \<Rightarrow> nat" where
  "char_len csrc len =
     (if len < CHAR_SIZE \<and> csrc ! len \<noteq> 0 then char_len csrc (Suc len) else len)"
  by pat_completeness auto
termination
  by (relation "measure (\<lambda>(csrc, len). CHAR_SIZE - len)") auto

declare char_len.simps [simp del]

definition deserialize_field :: "TupleDesc \<Rightarrow> u8 list \<Rightarrow> nat \<Rightarrow> field_t" where
  "deserialize_field td data i =
     (let ptr = drop (td_offsets td ! i) data in
      case td_types td ! i of
        T_INT \<Rightarrow> IntF (bytes_to_int (take INT_SIZE ptr))
      | T_DOUBLE \<Rightarrow> DoubleF (bytes_to_double (take DOUBLE_SIZE ptr))
      | T_CHAR \<Rightarrow> CharF (take (char_len ptr 0) ptr))"

definition deserialize :: "TupleDesc \<Rightarrow> u8 list \<Rightarrow> Tuple" where
  "deserialize td data = map (deserialize_field td data) [0..<length (td_types td)]"

text \<open>
  The specification's wording of the round trip: a CHAR field is "truncated/padded to
  CHAR_SIZE" (null-padded), and "deserialization stops at the first NUL".
\<close>

definition spec_trunc_pad :: "u8 list \<Rightarrow> u8 list" where
  "spec_trunc_pad s = take CHAR_SIZE s @ replicate (CHAR_SIZE - length s) 0"

definition spec_stored_field :: "field_t \<Rightarrow> field_t" where
  "spec_stored_field f =
     (case f of CharF s \<Rightarrow> CharF (takeWhile (\<lambda>c. c \<noteq> 0) (spec_trunc_pad s)) | _ \<Rightarrow> f)"

text \<open>The bytes a field occupies in a serialized tuple.\<close>

definition field_bytes :: "field_t \<Rightarrow> u8 list" where
  "field_bytes f = (case f of IntF v \<Rightarrow> int_to_bytes v | DoubleF v \<Rightarrow> double_to_bytes v
                     | CharF s \<Rightarrow> spec_trunc_pad s)"

text \<open>
  The class invariant both constructors of \<^verbatim>\<open>TupleDesc\<close> establish: the offsets are the
  running sums of the field widths and \<^verbatim>\<open>length_\<close> is their total.
\<close>

definition td_wf :: "TupleDesc \<Rightarrow> bool" where
  "td_wf td = (offsets_from 0 (td_types td) = (td_offsets td, td_length td))"

text \<open>The schema \<^verbatim>\<open>{id: INT, name: CHAR}\<close> of the specification's scenarios.\<close>

definition td_example :: TupleDesc where
  "td_example = \<lparr>td_types = [T_INT, T_CHAR], td_names = [''id'', ''name''],
                 td_offsets = [0, 4], td_length = 68\<rparr>"

section \<open>LeafPage (LeafPage.hpp, LeafPage.cpp)\<close>

text \<open>
  A leaf page is a view on a page buffer: the header fields \<^verbatim>\<open>next_leaf\<close> (a \<^verbatim>\<open>size_t\<close>) and
  \<^verbatim>\<open>size\<close> (a \<^verbatim>\<open>uint16_t\<close>), and the bytes after the header, which hold the tuples. The view
  also carries the schema, the key column and the capacity computed by the constructor.
  \<^verbatim>\<open>size\<close> and \<^verbatim>\<open>capacity\<close> are \<^verbatim>\<open>uint16_t\<close>; they are natural numbers here, and the casts
  to \<^verbatim>\<open>uint16_t\<close> that can wrap are written \<open>mod 65536\<close>.
\<close>

record LeafPage =
  lp_td :: TupleDesc
  lp_key_index :: nat
  lp_capacity :: nat
  lp_next_leaf :: u64
  lp_size :: nat
  lp_data :: "u8 list"

definition sizeof_LeafPageHeader :: nat where
  \<comment> \<open>Modelled from the spec: \<^verbatim>\<open>sizeof(LeafPageHeader)\<close> with an 8-byte \<^verbatim>\<open>size_t\<close>
      ("leaf capacity with td.length() = 68 is 60").\<close>
  "sizeof_LeafPageHeader = 16"

text \<open>
  The constructor, given the header fields and the tuple bytes found in the page. With
  \<^verbatim>\<open>td.length() = 0\<close> the division is undefined in C++ (here the capacity is then 0).
\<close>

definition LeafPage_new :: "u64 \<Rightarrow> nat \<Rightarrow> u8 list \<Rightarrow> TupleDesc \<Rightarrow> nat \<Rightarrow> LeafPage" where
  "LeafPage_new next_leaf size0 bytes td key_idx =
     (let bytes_for_tuples = DEFAULT_PAGE_SIZE - sizeof_LeafPageHeader;
          tbytes = td_length td;
          capacity = (bytes_for_tuples div tbytes) mod 65536
      in \<lparr>lp_td = td, lp_key_index = key_idx, lp_capacity = capacity,
          lp_next_leaf = next_leaf,
          lp_size = (if size0 > capacity then 0 else size0),
          lp_data = bytes\<rparr>)"

definition key_at :: "TupleDesc \<Rightarrow> nat \<Rightarrow> u8 list \<Rightarrow> nat \<Rightarrow> nat \<Rightarrow> error + i32" where
  "key_at td key_index base tbytes slot =
     (let p = drop (slot * tbytes) base;
          tmp = deserialize td p
      in get_int (get_field tmp key_index))"

text \<open>\<^verbatim>\<open>a < b\<close> on \<^verbatim>\<open>int\<close>.\<close>

definition int_less :: "i32 \<Rightarrow> i32 \<Rightarrow> bool" where
  "int_less a b = (sint a < sint b)"

text \<open>
  The binary search loop of \<^verbatim>\<open>insertTuple\<close>. \<open>lo\<close>, \<open>hi\<close> and \<open>mid\<close> are
  \<^verbatim>\<open>uint16_t\<close>; \<open>(lo + hi) >> 1\<close> is computed in \<^verbatim>\<open>int\<close> and lies between them, and
  \<open>mid + 1 \<le> hi\<close>, so no cast wraps.
\<close>

function insert_search ::
  "TupleDesc \<Rightarrow> nat \<Rightarrow> u8 list \<Rightarrow> nat \<Rightarrow> i32 \<Rightarrow> nat \<Rightarrow> nat \<Rightarrow> error + nat" where
  "insert_search td key_index data tbytes k lo hi =
     (if lo < hi then
        (let mid = (lo + hi) div 2 in
         case key_at td key_index data tbytes mid of
           Inl e \<Rightarrow> Inl e
         | Inr km \<Rightarrow>
             if int_less km k then insert_search td key_index data tbytes k (mid + 1) hi
             else insert_search td key_index data tbytes k lo mid)
      else Inr lo)"
  by pat_completeness auto
termination
  by (relation "measure (\<lambda>(td, key_index, data, tbytes, k, lo, hi). hi - lo)") auto

declare insert_search.simps [simp del]

text \<open>\<^verbatim>\<open>td.serialize(data + off, t)\<close> on the buffer \<open>data\<close>.\<close>

definition serialize_at :: "TupleDesc \<Rightarrow> u8 list \<Rightarrow> nat \<Rightarrow> Tuple \<Rightarrow> error + u8 list" where
  "serialize_at td data off t =
     (case serialize td (drop off data) t of
        Inl e \<Rightarrow> Inl e
      | Inr w \<Rightarrow> Inr (take off data @ w))"

text \<open>
  \<^verbatim>\<open>memmove(data + dst, data + src, n)\<close>: the source elements are read before any is
  written.
\<close>

definition memmove :: "'a list \<Rightarrow> nat \<Rightarrow> nat \<Rightarrow> nat \<Rightarrow> 'a list" where
  "memmove data dst src n = memcpy data dst (take n (drop src data))"

text \<open>
  \<^verbatim>\<open>LeafPage::insertTuple\<close>. A normal return gives the result and the page. A call that
  throws gives the exception only, not the page it leaves: when \<^verbatim>\<open>serialize\<close> throws in the
  last branch, the \<^verbatim>\<open>memmove\<close> before it has already shifted the slots.
\<close>

definition LeafPage_insertTuple :: "LeafPage \<Rightarrow> Tuple \<Rightarrow> error + (bool \<times> LeafPage)" where
  "LeafPage_insertTuple lp t =
     (let td = lp_td lp; key_index = lp_key_index lp; data = lp_data lp;
          capacity = lp_capacity lp;
          tbytes = td_length td;
          n = lp_size lp
      in case get_int (get_field t key_index) of
           Inl e \<Rightarrow> Inl e
         | Inr k \<Rightarrow>
        (case insert_search td key_index data tbytes k 0 n of
           Inl e \<Rightarrow> Inl e
         | Inr pos \<Rightarrow>
        (case (if pos < n
               then (case key_at td key_index data tbytes pos of
                       Inl e \<Rightarrow> Inl e
                     | Inr kp \<Rightarrow> Inr (kp = k))
               else Inr False) of
           Inl e \<Rightarrow> Inl e
         | Inr True \<Rightarrow>
             (case serialize_at td data (pos * tbytes) t of
                Inl e \<Rightarrow> Inl e
              | Inr data' \<Rightarrow> Inr (n = capacity, lp\<lparr>lp_data := data'\<rparr>))
         | Inr False \<Rightarrow>
             if n \<ge> capacity then Inr (True, lp)
             else
               (let move_bytes = (n - pos) * tbytes;
                    data1 = (if move_bytes \<noteq> 0
                             then memmove data ((pos + 1) * tbytes) (pos * tbytes) move_bytes
                             else data)
                in case serialize_at td data1 (pos * tbytes) t of
                     Inl e \<Rightarrow> Inl e
                   | Inr data2 \<Rightarrow>
                       (let size' = (n + 1) mod 65536
                        in Inr (size' = capacity,
                                lp\<lparr>lp_data := data2, lp_size := size'\<rparr>))))))"

text \<open>
  \<^verbatim>\<open>LeafPage::split\<close>: the result is the split key, the page itself and the new page. The
  exception is thrown before any write.
\<close>

definition LeafPage_split :: "LeafPage \<Rightarrow> LeafPage \<Rightarrow> error + (i32 \<times> LeafPage \<times> LeafPage)" where
  "LeafPage_split lp new_page =
     (let n = lp_size lp in
      if n = 0 then Inl LogicError
      else
        (let td = lp_td lp; data = lp_data lp;
             tbytes = td_length td;
             mid = (n div 2) mod 65536;
             right_cnt = (n - mid) mod 65536
         in case key_at td (lp_key_index lp) data tbytes mid of
              Inl e \<Rightarrow> Inl e
            | Inr split_key \<Rightarrow>
                (let new_data = memcpy (lp_data new_page) 0
                                  (take (right_cnt * tbytes) (drop (mid * tbytes) data))
                 in Inr (split_key,
                         lp\<lparr>lp_size := mid\<rparr>,
                         new_page\<lparr>lp_data := new_data, lp_size := right_cnt,
                                   lp_next_leaf := lp_next_leaf lp\<rparr>))))"

definition LeafPage_getTuple :: "LeafPage \<Rightarrow> nat \<Rightarrow> error + Tuple" where
  "LeafPage_getTuple lp slot =
     (if slot \<ge> lp_size lp then Inl OutOfRange
      else Inr (deserialize (lp_td lp) (drop (slot * td_length (lp_td lp)) (lp_data lp))))"

text \<open>
  What the constructor guarantees for a page of \<^verbatim>\<open>DEFAULT_PAGE_SIZE\<close> bytes, with a
  well-formed schema whose key column is an INT column: the data area is the page without the
  header, the capacity is the number of whole tuples that fit, and \<open>size \<le> capacity\<close>.
\<close>

definition leaf_wf :: "LeafPage \<Rightarrow> bool" where
  "leaf_wf lp =
     (td_wf (lp_td lp) \<and>
      lp_key_index lp < length (td_types (lp_td lp)) \<and>
      td_types (lp_td lp) ! lp_key_index lp = T_INT \<and>
      length (lp_data lp) = DEFAULT_PAGE_SIZE - sizeof_LeafPageHeader \<and>
      lp_capacity lp = (DEFAULT_PAGE_SIZE - sizeof_LeafPageHeader) div td_length (lp_td lp) \<and>
      lp_size lp \<le> lp_capacity lp)"

text \<open>The bytes of slot \<open>i\<close> and the key stored in slot \<open>i\<close>.\<close>

definition slot_bytes :: "LeafPage \<Rightarrow> nat \<Rightarrow> u8 list" where
  "slot_bytes lp i = take (td_length (lp_td lp)) (drop (i * td_length (lp_td lp)) (lp_data lp))"

definition slot_key :: "LeafPage \<Rightarrow> nat \<Rightarrow> i32" where
  "slot_key lp i =
     bytes_to_int (take INT_SIZE
       (drop (i * td_length (lp_td lp) + td_offsets (lp_td lp) ! lp_key_index lp) (lp_data lp)))"

text \<open>The leaf invariant of the data model: the keys of the occupied slots ascend.\<close>

definition leaf_sorted :: "LeafPage \<Rightarrow> bool" where
  "leaf_sorted lp =
     (\<forall>i<lp_size lp. \<forall>j<lp_size lp. i \<le> j \<longrightarrow> \<not> int_less (slot_key lp j) (slot_key lp i))"

text \<open>The bytes of a serialized tuple (lemma \<open>serialize_eq\<close> relates them to \<open>serialize\<close>).\<close>

definition tuple_bytes :: "Tuple \<Rightarrow> u8 list" where
  "tuple_bytes t = concat (map field_bytes t)"

text \<open>A leaf over the example schema holding one tuple with key 5.\<close>

definition leaf_example :: LeafPage where
  "leaf_example =
     LeafPage_new (- 1) 1 (tuple_bytes [IntF 5, CharF [97]] @ replicate 4012 0) td_example 0"

text \<open>An empty leaf over a zeroed page, as \<^verbatim>\<open>split\<close> receives for its new page.\<close>

definition leaf_fresh :: LeafPage where
  "leaf_fresh = LeafPage_new 0 0 (replicate 4080 0) td_example 0"

section \<open>IndexPage (IndexPage.hpp)\<close>

text \<open>
  An index page is a view on a page buffer: the header fields \<^verbatim>\<open>size\<close> (\<^verbatim>\<open>uint16_t\<close>) and
  \<^verbatim>\<open>index_children\<close> (\<^verbatim>\<open>uint8_t\<close>), the array \<^verbatim>\<open>keys\<close> of \<open>capacity\<close> \<^verbatim>\<open>int32_t\<close> and
  the array \<^verbatim>\<open>children\<close> of \<open>capacity + 1\<close> \<^verbatim>\<open>size_t\<close>. The two arrays do not overlap.
\<close>

record IndexPage =
  ip_capacity :: nat
  ip_size :: nat
  ip_index_children :: u8
  ip_keys :: "i32 list"
  ip_children :: "u64 list"

definition sizeof_IndexPageHeader :: nat where
  \<comment> \<open>Modelled from the spec: \<^verbatim>\<open>sizeof(IndexPageHeader)\<close>, a \<^verbatim>\<open>uint16_t\<close> and a \<^verbatim>\<open>uint8_t\<close>
      padded to 4 bytes ("index-page capacity 340 with 32-bit keys and 64-bit child ids").\<close>
  "sizeof_IndexPageHeader = 4"

definition index_capacity :: nat where
  "index_capacity =
     (let rem = DEFAULT_PAGE_SIZE - sizeof_IndexPageHeader; ksz = 4; csz = 8;
          cap = (if rem > csz then (rem - csz) div (ksz + csz) else 0)
      in cap mod 65536)"

text \<open>The constructor, given the header fields and the two arrays found in the page.\<close>

definition IndexPage_new :: "nat \<Rightarrow> u8 \<Rightarrow> i32 list \<Rightarrow> u64 list \<Rightarrow> IndexPage" where
  "IndexPage_new size0 ic keys children =
     \<lparr>ip_capacity = index_capacity,
      ip_size = (if size0 > index_capacity then 0 else size0),
      ip_index_children = ic,
      ip_keys = keys, ip_children = children\<rparr>"

text \<open>
  The scan \<^verbatim>\<open>while (pos < n && keys[pos] < key) ++pos\<close> of \<^verbatim>\<open>insert\<close>; \<open>pos \<le> n\<close> is a
  \<^verbatim>\<open>uint16_t\<close> that cannot wrap.
\<close>

function insert_scan :: "i32 list \<Rightarrow> i32 \<Rightarrow> nat \<Rightarrow> nat \<Rightarrow> nat" where
  "insert_scan keys key n pos =
     (if pos < n \<and> int_less (keys ! pos) key then insert_scan keys key n (pos + 1) else pos)"
  by pat_completeness auto
termination
  by (relation "measure (\<lambda>(keys, key, n, pos). n - pos)") auto

declare insert_scan.simps [simp del]

definition IndexPage_insert :: "IndexPage \<Rightarrow> i32 \<Rightarrow> u64 \<Rightarrow> bool \<times> IndexPage" where
  "IndexPage_insert ip key child =
     (let n = ip_size ip; capacity = ip_capacity ip in
      if n \<ge> capacity then (True, ip)
      else
        (let pos = insert_scan (ip_keys ip) key n 0;
             keys1 = (if n > pos then memmove (ip_keys ip) (pos + 1) pos (n - pos)
                      else ip_keys ip);
             children1 = (if n + 1 > pos + 1
                          then memmove (ip_children ip) (pos + 2) (pos + 1) (n - pos)
                          else ip_children ip);
             keys2 = keys1[pos := key];
             children2 = children1[pos + 1 := child];
             size' = (n + 1) mod 65536
         in (size' = capacity,
             ip\<lparr>ip_keys := keys2, ip_children := children2, ip_size := size'\<rparr>)))"

text \<open>
  \<^verbatim>\<open>IndexPage::split\<close>: the result is the promoted key, the page itself and the new page.
  \<open>n - mid - 1\<close> is computed in \<^verbatim>\<open>int\<close> and cast to \<^verbatim>\<open>uint16_t\<close>. The code assumes
  \<open>n > 0\<close> ("n>0" is its stated convention); with \<open>n = 0\<close> the copies run past the arrays,
  which is undefined in C++ (here they stop at the end of the source array).
\<close>

definition IndexPage_split :: "IndexPage \<Rightarrow> IndexPage \<Rightarrow> i32 \<times> IndexPage \<times> IndexPage" where
  "IndexPage_split ip new_page =
     (let n = ip_size ip;
          mid = (n div 2) mod 65536;
          up_key = ip_keys ip ! mid;
          right = nat ((int n - int mid - 1) mod 65536);
          new_keys = (if right > 0
                      then memcpy (ip_keys new_page) 0 (take right (drop (mid + 1) (ip_keys ip)))
                      else ip_keys new_page);
          new_children = (if right + 1 > 0
                          then memcpy (ip_children new_page) 0
                                 (take (right + 1) (drop (mid + 1) (ip_children ip)))
                          else ip_children new_page)
      in (up_key,
          ip\<lparr>ip_size := mid\<rparr>,
          new_page\<lparr>ip_keys := new_keys, ip_children := new_children, ip_size := right,
                    ip_index_children := ip_index_children ip\<rparr>))"

text \<open>
  What the constructor guarantees for a page of \<^verbatim>\<open>DEFAULT_PAGE_SIZE\<close> bytes: the capacity,
  the lengths of the two arrays and \<open>size \<le> capacity\<close>.
\<close>

definition index_wf :: "IndexPage \<Rightarrow> bool" where
  "index_wf ip =
     (ip_capacity ip = index_capacity \<and>
      length (ip_keys ip) = ip_capacity ip \<and>
      length (ip_children ip) = ip_capacity ip + 1 \<and>
      ip_size ip \<le> ip_capacity ip)"

text \<open>The keys and children in use: \<open>size\<close> keys and \<open>size + 1\<close> children.\<close>

definition valid_keys :: "IndexPage \<Rightarrow> i32 list" where
  "valid_keys ip = take (ip_size ip) (ip_keys ip)"

definition valid_children :: "IndexPage \<Rightarrow> u64 list" where
  "valid_children ip = take (ip_size ip + 1) (ip_children ip)"

text \<open>Pages for examples: keys 10, 20, 30 with children 1, 2, 3, 4, and a zeroed page.\<close>

definition index_example :: IndexPage where
  "index_example =
     IndexPage_new 3 0 ([10, 20, 30] @ replicate 337 0) ([1, 2, 3, 4] @ replicate 337 0)"

definition index_fresh :: IndexPage where
  "index_fresh = IndexPage_new 0 0 (replicate 340 0) (replicate 341 0)"

section \<open>HeapPage (HeapPage.cpp)\<close>

text \<open>
  A heap page is a view on a page buffer: \<^verbatim>\<open>header\<close> points to the start of the page and
  \<^verbatim>\<open>data\<close> to the byte after the header, \<open>hp_data_off\<close> bytes into the page. The operations
  that write return the view with the page as written. The sizes are \<^verbatim>\<open>size_t\<close>; they are
  natural numbers here (no computation below comes near \<open>2 ^ 64\<close>).
\<close>

record HeapPage =
  hp_td :: TupleDesc
  hp_capacity :: nat
  hp_data_off :: nat
  hp_page :: "u8 list"

definition HeapPage_new :: "u8 list \<Rightarrow> TupleDesc \<Rightarrow> HeapPage" where
  "HeapPage_new page td =
     (let P = DEFAULT_PAGE_SIZE;
          T = td_length td;
          capacity = (8 * P) div (8 * T + 1);
          headerBytes = (capacity + 7) div 8
      in \<lparr>hp_td = td, hp_capacity = capacity, hp_data_off = headerBytes, hp_page = page\<rparr>)"

text \<open>\<^verbatim>\<open>i >> 3\<close> and \<^verbatim>\<open>static_cast<uint8_t>(0x80u >> (i & 7))\<close>.\<close>

definition slot_byte :: "nat \<Rightarrow> nat" where
  "slot_byte i = drop_bit 3 i"

definition slot_mask :: "nat \<Rightarrow> u8" where
  "slot_mask i = of_nat (drop_bit (i AND 7) (128 :: nat))"

text \<open>The test \<^verbatim>\<open>header[byte] & mask\<close> of a slot's bit.\<close>

definition header_bit :: "HeapPage \<Rightarrow> nat \<Rightarrow> bool" where
  "header_bit hp i = (hp_page hp ! slot_byte i AND slot_mask i \<noteq> 0)"

function begin_loop :: "HeapPage \<Rightarrow> nat \<Rightarrow> nat" where
  "begin_loop hp i =
     (if i < hp_capacity hp
      then (if header_bit hp i then i else begin_loop hp (i + 1))
      else hp_capacity hp)"
  by pat_completeness auto
termination
  by (relation "measure (\<lambda>(hp, i). hp_capacity hp - i)") auto

declare begin_loop.simps [simp del]

definition HeapPage_begin :: "HeapPage \<Rightarrow> nat" where
  "HeapPage_begin hp = begin_loop hp 0"

definition HeapPage_end :: "HeapPage \<Rightarrow> nat" where
  "HeapPage_end hp = hp_capacity hp"

text \<open>
  The loop of \<^verbatim>\<open>insertTuple\<close>. \<^verbatim>\<open>serialize\<close> throws before it writes, so an error leaves the
  page as it was.
\<close>

function insert_loop :: "HeapPage \<Rightarrow> Tuple \<Rightarrow> nat \<Rightarrow> error + (bool \<times> HeapPage)" where
  "insert_loop hp t i =
     (if i < hp_capacity hp
      then (if \<not> header_bit hp i
            then (case serialize_at (hp_td hp) (hp_page hp)
                         (hp_data_off hp + i * td_length (hp_td hp)) t of
                    Inl e \<Rightarrow> Inl e
                  | Inr page1 \<Rightarrow>
                      Inr (True,
                           hp\<lparr>hp_page := page1[slot_byte i := page1 ! slot_byte i OR slot_mask i]\<rparr>))
            else insert_loop hp t (i + 1))
      else Inr (False, hp))"
  by pat_completeness auto
termination
  by (relation "measure (\<lambda>(hp, t, i). hp_capacity hp - i)") auto

declare insert_loop.simps [simp del]

definition HeapPage_insertTuple :: "HeapPage \<Rightarrow> Tuple \<Rightarrow> error + (bool \<times> HeapPage)" where
  "HeapPage_insertTuple hp t = insert_loop hp t 0"




function next_loop :: "HeapPage \<Rightarrow> nat \<Rightarrow> nat" where
  "next_loop hp i =
     (if i < hp_capacity hp
      then (if header_bit hp i then i else next_loop hp (i + 1))
      else hp_capacity hp)"
  by pat_completeness auto
termination
  by (relation "measure (\<lambda>(hp, i). hp_capacity hp - i)") auto

declare next_loop.simps [simp del]

text \<open>\<^verbatim>\<open>HeapPage::next(slot)\<close>: the result is the new value of \<open>slot\<close>.\<close>

definition HeapPage_next :: "HeapPage \<Rightarrow> nat \<Rightarrow> nat" where
  "HeapPage_next hp slot =
     (if slot \<ge> hp_capacity hp then hp_capacity hp else next_loop hp (slot + 1))"




section \<open>File I/O, Database and BufferPool (DbFile.cpp, Database.cpp, BufferPool.cpp)\<close>

text \<open>
  \<^verbatim>\<open>PageId\<close> is the pair of a file name and a page number, a \<^verbatim>\<open>size_t\<close> (below \<open>2 ^ 64\<close>);
  \<^verbatim>\<open>PageId{}\<close> is \<open>([], 0)\<close>.
\<close>

type_synonym PageId = "string \<times> nat"

text \<open>
  What the operating system answers to one positional call (\<^verbatim>\<open>pread\<close>, \<^verbatim>\<open>pwrite\<close>) for
  \<^verbatim>\<open>DEFAULT_PAGE_SIZE\<close> bytes: \<open>-1\<close>, or the number of bytes it transferred, where a number
  of \<^verbatim>\<open>DEFAULT_PAGE_SIZE\<close> or more stands for the complete transfer.
\<close>

datatype io_result = IoErr | IoBytes nat

text \<open>
  The I/O state of a \<^verbatim>\<open>DbFile\<close>: the bytes on disk, page by page, at the page index
  \<open>offset div DEFAULT_PAGE_SIZE\<close> (with zeros beyond the end of the file), the audit trails, and
  the environment: \<open>f_os f k\<close> is the answer of the operating system to the \<open>k\<close>-th positional
  call on the file, and \<open>f_calls f\<close> counts the calls made so far.
\<close>

record DbFile =
  f_pages :: "nat \<Rightarrow> u8 list"
  f_reads :: "nat list"
  f_writes :: "nat list"
  f_os :: "nat \<Rightarrow> io_result"
  f_calls :: nat

text \<open>
  \<^verbatim>\<open>static_cast<off_t>(id * DEFAULT_PAGE_SIZE)\<close>: the product is computed in \<^verbatim>\<open>size_t\<close> (64
  bits, it wraps) and read as a signed 64-bit \<^verbatim>\<open>off_t\<close>, which is negative from \<open>2 ^ 63\<close> on.
  \<^verbatim>\<open>pread\<close> and \<^verbatim>\<open>pwrite\<close> fail for a negative offset.
\<close>

definition page_offset :: "nat \<Rightarrow> nat" where
  "page_offset n = (n * DEFAULT_PAGE_SIZE) mod 2 ^ 64"

definition positional_call :: "DbFile \<Rightarrow> nat \<Rightarrow> io_result" where
  "positional_call f offset = (if 2 ^ 63 \<le> offset then IoErr else f_os f (f_calls f))"

text \<open>
  \<^verbatim>\<open>DbFile::readPage\<close>: the page number goes to the audit trail before the read; a failed
  \<^verbatim>\<open>pread\<close> throws \<^verbatim>\<open>std::runtime_error\<close>; a short read is zero-padded. The result is the
  exception or the bytes put into the caller's buffer, and the file.
\<close>

definition DbFile_readPage :: "DbFile \<Rightarrow> nat \<Rightarrow> (error + u8 list) \<times> DbFile" where
  "DbFile_readPage f n =
     (let f1 = f\<lparr>f_reads := f_reads f @ [n], f_calls := f_calls f + 1\<rparr>;
          offset = page_offset n;
          on_disk = f_pages f (offset div DEFAULT_PAGE_SIZE)
      in case positional_call f offset of
           IoErr \<Rightarrow> (Inl RuntimeError, f1)
         | IoBytes k \<Rightarrow>
             (Inr (if DEFAULT_PAGE_SIZE \<le> k then on_disk
                   else take k on_disk @ replicate (DEFAULT_PAGE_SIZE - k) 0),
              f1))"

text \<open>
  \<^verbatim>\<open>DbFile::writePage\<close>: the page number goes to the audit trail before the write; a failed
  \<^verbatim>\<open>pwrite\<close> and an incomplete one both throw \<^verbatim>\<open>std::runtime_error\<close>, the latter with the
  bytes it transferred on disk.
\<close>

definition DbFile_writePage :: "DbFile \<Rightarrow> u8 list \<Rightarrow> nat \<Rightarrow> error option \<times> DbFile" where
  "DbFile_writePage f page n =
     (let f1 = f\<lparr>f_writes := f_writes f @ [n], f_calls := f_calls f + 1\<rparr>;
          offset = page_offset n;
          q = offset div DEFAULT_PAGE_SIZE
      in case positional_call f offset of
           IoErr \<Rightarrow> (Some RuntimeError, f1)
         | IoBytes k \<Rightarrow>
             if DEFAULT_PAGE_SIZE \<le> k
             then (None, f1\<lparr>f_pages := (f_pages f)(q := page)\<rparr>)
             else (Some RuntimeError,
                   f1\<lparr>f_pages := (f_pages f)(q := take k page @ drop k (f_pages f q))\<rparr>))"

text \<open>
  The members of \<^verbatim>\<open>BufferPool\<close> as BufferPool.cpp uses them (BufferPool.hpp is not among the
  sources): the frames \<^verbatim>\<open>pages\<close>, the maps \<^verbatim>\<open>pid_to_pos\<close> and \<^verbatim>\<open>pos_to_pid\<close> (whose \<open>[]\<close>
  gives \<^verbatim>\<open>PageId{}\<close> for a frame without page), the list \<^verbatim>\<open>lru_list\<close> with the most recently used
  frame in front, the map \<^verbatim>\<open>pos_to_lru\<close> from a frame to its node of that list (here the set of
  its keys; the node of frame \<open>pos\<close> is the element \<open>pos\<close> of the list), the set \<^verbatim>\<open>dirty\<close> and the
  vector \<^verbatim>\<open>available\<close>, whose back is its last element.
\<close>

record BufferPool =
  pages :: "u8 list list"
  pid_to_pos :: "PageId \<rightharpoonup> nat"
  pos_to_pid :: "nat \<Rightarrow> PageId"
  pos_to_lru :: "nat set"
  lru_list :: "nat list"
  dirty :: "nat set"
  available :: "nat list"

text \<open>
  The constructor, for \<^verbatim>\<open>DEFAULT_NUM_PAGES = N\<close>: \<^verbatim>\<open>std::iota\<close> over the reversed vector leaves
  \<open>available = [N - 1, \<dots>, 1, 0]\<close>. The pool is a member of the static \<^verbatim>\<open>Database\<close> instance,
  so its frames start zeroed.
\<close>

definition BufferPool_new :: "nat \<Rightarrow> BufferPool" where
  "BufferPool_new N =
     \<lparr>pages = replicate N (replicate DEFAULT_PAGE_SIZE 0),
      pid_to_pos = Map.empty,
      pos_to_pid = (\<lambda>pos. ([], 0)),
      pos_to_lru = {},
      lru_list = [],
      dirty = {},
      available = rev [0..<N]\<rparr>"

text \<open>The database: its buffer pool and its files by name.\<close>

record Database =
  bufferPool :: BufferPool
  files :: "string \<rightharpoonup> DbFile"

text \<open>
  An operation that can throw after it has changed the pool returns the exception, if any,
  together with the state it leaves.
\<close>

definition BufferPool_contains :: "BufferPool \<Rightarrow> PageId \<Rightarrow> bool" where
  "BufferPool_contains bp pid = (pid_to_pos bp pid \<noteq> None)"

definition BufferPool_isDirty :: "BufferPool \<Rightarrow> PageId \<Rightarrow> bool" where
  "BufferPool_isDirty bp pid =
     (case pid_to_pos bp pid of None \<Rightarrow> False | Some pos \<Rightarrow> pos \<in> dirty bp)"

definition BufferPool_markDirty :: "BufferPool \<Rightarrow> PageId \<Rightarrow> BufferPool" where
  "BufferPool_markDirty bp pid =
     (case pid_to_pos bp pid of
        None \<Rightarrow> bp
      | Some pos \<Rightarrow> bp\<lparr>dirty := insert pos (dirty bp)\<rparr>)"

definition BufferPool_discardPage :: "BufferPool \<Rightarrow> PageId \<Rightarrow> BufferPool" where
  "BufferPool_discardPage bp pid =
     (case pid_to_pos bp pid of
        None \<Rightarrow> bp
      | Some pos \<Rightarrow>
          (let bp1 = bp\<lparr>pid_to_pos := (pid_to_pos bp)(pid := None),
                         pos_to_pid := (pos_to_pid bp)(pos := ([], 0))\<rparr>;
               bp2 = (if pos \<in> pos_to_lru bp1
                      then bp1\<lparr>lru_list := remove1 pos (lru_list bp1),
                               pos_to_lru := pos_to_lru bp1 - {pos}\<rparr>
                      else bp1)
           in bp2\<lparr>dirty := dirty bp2 - {pos}, available := available bp2 @ [pos]\<rparr>))"

text \<open>
  \<^verbatim>\<open>flushPage\<close>: \<^verbatim>\<open>dirty.erase(pos)\<close> comes before the lookup of the file, which throws
  \<^verbatim>\<open>std::out_of_range\<close> for a name that is not registered, and before the write, which can
  throw as well.
\<close>

definition BufferPool_flushPage :: "Database \<Rightarrow> PageId \<Rightarrow> error option \<times> Database" where
  "BufferPool_flushPage db pid =
     (let bp = bufferPool db in
      case pid_to_pos bp pid of
        None \<Rightarrow> (None, db)
      | Some pos \<Rightarrow>
          if pos \<notin> dirty bp then (None, db)
          else
            (let db1 = db\<lparr>bufferPool := bp\<lparr>dirty := dirty bp - {pos}\<rparr>\<rparr> in
             case files db1 (fst pid) of
               None \<Rightarrow> (Some OutOfRange, db1)
             | Some f \<Rightarrow>
                 (case DbFile_writePage f (pages bp ! pos) (snd pid) of
                    (r, f') \<Rightarrow> (r, db1\<lparr>files := (files db1)(fst pid \<mapsto> f')\<rparr>))))"



text \<open>
  The eviction step of \<^verbatim>\<open>getPage\<close>, taken when \<^verbatim>\<open>available\<close> is empty. \<^verbatim>\<open>lru_list.back()\<close>
  of an empty list is undefined.
\<close>

definition evict :: "Database \<Rightarrow> error option \<times> Database" where
  "evict db =
     (let bp = bufferPool db in
      if lru_list bp = [] then (Some Undefined, db)
      else
        (let pos = last (lru_list bp);
             old_pid = pos_to_pid bp pos
         in if fst old_pid \<noteq> []
            then (case (if BufferPool_isDirty bp old_pid
                        then BufferPool_flushPage db old_pid else (None, db)) of
                    (Some e, db1) \<Rightarrow> (Some e, db1)
                  | (None, db1) \<Rightarrow>
                      (None, db1\<lparr>bufferPool :=
                                   BufferPool_discardPage (bufferPool db1) old_pid\<rparr>))
            else (None, db)))"

text \<open>
  \<^verbatim>\<open>getPage\<close> returns a reference to a frame: the result is the frame's position \<open>pos\<close>, and the
  buffer is \<open>pages ! pos\<close> of the pool. \<^verbatim>\<open>available.back()\<close> of an empty vector is undefined.
  \<^verbatim>\<open>available.pop_back()\<close> comes before the lookup of the file and before the read, which
  both can throw: the frame is then neither free nor associated.
\<close>

definition BufferPool_getPage :: "Database \<Rightarrow> PageId \<Rightarrow> (error + nat) \<times> Database" where
  "BufferPool_getPage db pid =
     (let bp = bufferPool db in
      case pid_to_pos bp pid of
        Some pos \<Rightarrow>
          (Inr pos,
           if pos \<in> pos_to_lru bp
           then db\<lparr>bufferPool := bp\<lparr>lru_list := pos # remove1 pos (lru_list bp)\<rparr>\<rparr>
           else db)
      | None \<Rightarrow>
          (case (if available bp = [] then evict db else (None, db)) of
             (Some e, db1) \<Rightarrow> (Inl e, db1)
           | (None, db1) \<Rightarrow>
               (let bp1 = bufferPool db1 in
                if available bp1 = [] then (Inl Undefined, db1)
                else
                  (let pos = last (available bp1);
                       bp2 = bp1\<lparr>available := butlast (available bp1)\<rparr>;
                       db2 = db1\<lparr>bufferPool := bp2\<rparr>
                   in case files db2 (fst pid) of
                        None \<Rightarrow> (Inl OutOfRange, db2)
                      | Some f \<Rightarrow>
                          (case DbFile_readPage f (snd pid) of
                             (Inl e, f') \<Rightarrow>
                               (Inl e, db2\<lparr>files := (files db2)(fst pid \<mapsto> f')\<rparr>)
                           | (Inr page, f') \<Rightarrow>
                               (let bp3 = bp2\<lparr>pages := (pages bp2)[pos := page],
                                             pid_to_pos := (pid_to_pos bp2)(pid \<mapsto> pos),
                                             pos_to_pid := (pos_to_pid bp2)(pos := pid),
                                             lru_list := pos # lru_list bp2,
                                             pos_to_lru := insert pos (pos_to_lru bp2)\<rparr>
                                in (Inr pos,
                                    db2\<lparr>bufferPool := bp3,
                                         files := (files db2)(fst pid \<mapsto> f')\<rparr>)))))))"





text \<open>The frames that hold a page, and the invariant of the specification's section 8.\<close>

definition resident :: "BufferPool \<Rightarrow> nat set" where
  "resident bp = ran (pid_to_pos bp)"



text \<open>
  The state of a pool of \<open>N\<close> frames between calls: besides the above, the free frames and
  the frames of the LRU list are distinct, together they are the \<open>N\<close> frames, and the LRU
  list holds exactly the resident frames.
\<close>

definition pool_inv :: "nat \<Rightarrow> Database \<Rightarrow> bool" where
  "pool_inv N db =
     (let bp = bufferPool db in
      length (pages bp) = N \<and>
      (\<forall>pid pos. pid_to_pos bp pid = Some pos \<longrightarrow> pos_to_pid bp pos = pid) \<and>
      distinct (available bp) \<and> distinct (lru_list bp) \<and>
      set (lru_list bp) = resident bp \<and> pos_to_lru bp = set (lru_list bp) \<and>
      set (available bp) \<inter> resident bp = {} \<and>
      set (available bp) \<union> resident bp = {0..<N} \<and>
      dirty bp \<subseteq> resident bp)"

text \<open>
  Example: the database of the specification's scenarios, a fresh pool of three frames, with
  one registered file whose pages are all zero and whose positional calls all complete.
\<close>

definition file_zero :: DbFile where
  "file_zero = \<lparr>f_pages = (\<lambda>n. replicate DEFAULT_PAGE_SIZE 0), f_reads = [], f_writes = [],
                f_os = (\<lambda>k. IoBytes DEFAULT_PAGE_SIZE), f_calls = 0\<rparr>"

definition files_example :: "string \<rightharpoonup> DbFile" where
  "files_example = [''heap'' \<mapsto> file_zero]"

definition db_example :: Database where
  "db_example = \<lparr>bufferPool = BufferPool_new 3, files = files_example\<rparr>"







section \<open>HeapFile (HeapFile.cpp)\<close>

text \<open>
  The members of the file object that \<^verbatim>\<open>HeapFile\<close> reads and writes itself: its name, its
  schema and \<^verbatim>\<open>numPages\<close>. Its pages are reached through the buffer pool only, which looks the
  file up by name in the database. An iterator is a page number and a slot.
\<close>

record HeapFile =
  hf_name :: string
  hf_td :: TupleDesc
  hf_numPages :: nat

record Iterator =
  it_page :: nat
  it_slot :: nat

text \<open>A write through the reference that \<^verbatim>\<open>getPage\<close> returned for frame \<open>pos\<close>.\<close>

definition set_frame :: "Database \<Rightarrow> nat \<Rightarrow> u8 list \<Rightarrow> Database" where
  "set_frame db pos page =
     db\<lparr>bufferPool := (bufferPool db)\<lparr>pages := (pages (bufferPool db))[pos := page]\<rparr>\<rparr>"

definition mark_dirty :: "Database \<Rightarrow> PageId \<Rightarrow> Database" where
  "mark_dirty db pid = db\<lparr>bufferPool := BufferPool_markDirty (bufferPool db) pid\<rparr>"

text \<open>
  \<^verbatim>\<open>HeapFile::insertTuple\<close>: the exception, if any, with the file object and the database as
  the call leaves them.
\<close>

definition insert_new_page ::
  "HeapFile \<Rightarrow> Database \<Rightarrow> Tuple \<Rightarrow> error option \<times> HeapFile \<times> Database" where
  "insert_new_page hf db t =
     (let new_page_idx = hf_numPages hf;
          new_pid = (hf_name hf, new_page_idx)
      in case BufferPool_getPage db new_pid of
           (Inl e, db1) \<Rightarrow> (Some e, hf, db1)
         | (Inr pos, db1) \<Rightarrow>
             (let hp_new = HeapPage_new (pages (bufferPool db1) ! pos) (hf_td hf) in
              case HeapPage_insertTuple hp_new t of
                Inl e \<Rightarrow> (Some e, hf, db1)
              | Inr (False, hp') \<Rightarrow> (Some RuntimeError, hf, db1)
              | Inr (True, hp') \<Rightarrow>
                  (None, hf\<lparr>hf_numPages := hf_numPages hf + 1\<rparr>,
                   mark_dirty (set_frame db1 pos (hp_page hp')) new_pid)))"

definition HeapFile_insertTuple ::
  "HeapFile \<Rightarrow> Database \<Rightarrow> Tuple \<Rightarrow> error option \<times> HeapFile \<times> Database" where
  "HeapFile_insertTuple hf db t =
     (if \<not> compatible (hf_td hf) t then (Some LogicError, hf, db)
      else if hf_numPages hf > 0 then
        (let last_page_idx = hf_numPages hf - 1;
             pid = (hf_name hf, last_page_idx)
         in case BufferPool_getPage db pid of
              (Inl e, db1) \<Rightarrow> (Some e, hf, db1)
            | (Inr pos, db1) \<Rightarrow>
                (let hp = HeapPage_new (pages (bufferPool db1) ! pos) (hf_td hf) in
                 case HeapPage_insertTuple hp t of
                   Inl e \<Rightarrow> (Some e, hf, db1)
                 | Inr (True, hp') \<Rightarrow>
                     (None, hf, mark_dirty (set_frame db1 pos (hp_page hp')) pid)
                 | Inr (False, hp') \<Rightarrow> insert_new_page hf db1 t))
      else insert_new_page hf db t)"

text \<open>The loop over the following pages in \<^verbatim>\<open>HeapFile::next\<close>.\<close>

function next_scan ::
  "HeapFile \<Rightarrow> Database \<Rightarrow> Iterator \<Rightarrow> nat \<Rightarrow> error option \<times> Iterator \<times> Database" where
  "next_scan hf db it p =
     (if p < hf_numPages hf then
        (case BufferPool_getPage db (hf_name hf, p) of
           (Inl e, db1) \<Rightarrow> (Some e, it, db1)
         | (Inr pos, db1) \<Rightarrow>
             (let hp = HeapPage_new (pages (bufferPool db1) ! pos) (hf_td hf);
                  b = HeapPage_begin hp
              in if b \<noteq> HeapPage_end hp then (None, \<lparr>it_page = p, it_slot = b\<rparr>, db1)
                 else next_scan hf db1 it (p + 1)))
      else (None, \<lparr>it_page = hf_numPages hf, it_slot = 0\<rparr>, db))"
  by pat_completeness auto
termination
  by (relation "measure (\<lambda>(hf, db, it, p). hf_numPages hf - p)") auto

declare next_scan.simps [simp del]

text \<open>
  \<^verbatim>\<open>HeapFile::next(it)\<close>: the exception, if any, the iterator and the database as the call
  leaves them.
\<close>

definition HeapFile_next ::
  "HeapFile \<Rightarrow> Database \<Rightarrow> Iterator \<Rightarrow> error option \<times> Iterator \<times> Database" where
  "HeapFile_next hf db it =
     (if it_page it \<ge> hf_numPages hf
      then (None, \<lparr>it_page = hf_numPages hf, it_slot = 0\<rparr>, db)
      else
        (case BufferPool_getPage db (hf_name hf, it_page it) of
           (Inl e, db1) \<Rightarrow> (Some e, it, db1)
         | (Inr pos, db1) \<Rightarrow>
             (let hp = HeapPage_new (pages (bufferPool db1) ! pos) (hf_td hf);
                  s = HeapPage_next hp (it_slot it)
              in if s \<noteq> HeapPage_end hp then (None, it\<lparr>it_slot := s\<rparr>, db1)
                 else next_scan hf db1 it (it_page it + 1))))"

definition HeapFile_end :: "HeapFile \<Rightarrow> Iterator" where
  "HeapFile_end hf = \<lparr>it_page = hf_numPages hf, it_slot = 0\<rparr>"

text \<open>Example: a heap file of two pages.\<close>

definition heapfile_example :: HeapFile where
  "heapfile_example = \<lparr>hf_name = ''heap'', hf_td = td_example, hf_numPages = 2\<rparr>"

section \<open>Codec lemmas\<close>

lemma byte_chunk:
  fixes v :: "'a::len word"
  shows "bit (push_bit k (ucast (ucast (drop_bit k v) :: u8)) :: 'a word) n \<longleftrightarrow>
           k \<le> n \<and> n < k + 8 \<and> bit v n"
  by (auto simp: bit_simps dest: bit_imp_le_length)

lemma byte_chunk0:
  fixes v :: "'a::len word"
  shows "bit (ucast (ucast v :: u8) :: 'a word) n \<longleftrightarrow> n < 8 \<and> bit v n"
  using byte_chunk [of 0 v n] by simp

lemma bytes_to_int_inverse: "bytes_to_int (int_to_bytes v) = v"
proof (rule bit_word_eqI)
  fix n assume "n < LENGTH(32)"
  then have "n < 32" by simp
  then consider "n < 8" | "8 \<le> n" "n < 16" | "16 \<le> n" "n < 24" | "24 \<le> n" "n < 32"
    by linarith
  then show "bit (bytes_to_int (int_to_bytes v)) n \<longleftrightarrow> bit v n"
    unfolding bytes_to_int_def int_to_bytes_def
    by cases (simp_all add: bit_or_iff byte_chunk byte_chunk0)
qed

lemma bytes_to_double_inverse: "bytes_to_double (double_to_bytes v) = v"
proof (rule bit_word_eqI)
  fix n assume "n < LENGTH(64)"
  then have "n < 64" by simp
  then consider "n < 8" | "8 \<le> n" "n < 16" | "16 \<le> n" "n < 24" | "24 \<le> n" "n < 32"
    | "32 \<le> n" "n < 40" | "40 \<le> n" "n < 48" | "48 \<le> n" "n < 56" | "56 \<le> n" "n < 64"
    by linarith
  then show "bit (bytes_to_double (double_to_bytes v)) n \<longleftrightarrow> bit v n"
    unfolding bytes_to_double_def double_to_bytes_def
    by cases (simp_all add: bit_or_iff byte_chunk byte_chunk0)
qed

lemma length_field_bytes: "length (field_bytes f) = size_of_fixed (holds_type f)"
  by (cases f) (auto simp: field_bytes_def size_of_fixed_def int_to_bytes_def double_to_bytes_def
      spec_trunc_pad_def INT_SIZE_def DOUBLE_SIZE_def CHAR_SIZE_def)

lemma offsets_from_length: "length (fst (offsets_from off tys)) = length tys"
  by (induction tys arbitrary: off) (auto simp: case_prod_beta)

lemma offsets_from_snd: "snd (offsets_from off tys) = off + sum_list (map size_of_fixed tys)"
  by (induction tys arbitrary: off) (auto simp: case_prod_beta)

lemma offsets_from_nth:
  "i < length tys \<Longrightarrow> fst (offsets_from off tys) ! i = off + sum_list (map size_of_fixed (take i tys))"
proof (induction tys arbitrary: off i)
  case Nil
  then show ?case by simp
next
  case (Cons ty tys)
  show ?case
  proof (cases i)
    case 0
    then show ?thesis by (simp add: case_prod_beta)
  next
    case (Suc j)
    with Cons.prems have "j < length tys" by simp
    from Cons.IH [OF this, of "off + size_of_fixed ty"] Suc show ?thesis
      by (simp add: case_prod_beta)
  qed
qed

lemma TupleDesc_new_wf: "TupleDesc_new tys nms = Inr td \<Longrightarrow> td_wf td"
  unfolding TupleDesc_new_def td_wf_def
  by (cases "offsets_from 0 tys") (auto split: if_splits)

lemma length_int_to_bytes: "length (int_to_bytes v) = 4"
  by (simp add: int_to_bytes_def)

lemma length_double_to_bytes: "length (double_to_bytes v) = 8"
  by (simp add: double_to_bytes_def)

lemma compatible_iff:
  "compatible td t \<longleftrightarrow> map holds_type t = td_types td"
proof
  assume c: "compatible td t"
  then have len: "length t = length (td_types td)"
    by (simp add: compatible_def split: if_splits)
  have "\<forall>i<length (td_types td). holds_type (t ! i) = td_types td ! i"
    using c len by (simp add: compatible_def list_all_iff)
  with len show "map holds_type t = td_types td"
    by (intro nth_equalityI) simp_all
next
  assume m: "map holds_type t = td_types td"
  then have len: "length t = length (td_types td)" by (metis length_map)
  have "\<And>i. i < length t \<Longrightarrow> holds_type (t ! i) = td_types td ! i"
    using m by (metis nth_map)
  with len show "compatible td t"
    by (simp add: compatible_def list_all_iff)
qed

lemma memcpy_at:
  "length pre = off \<Longrightarrow> memcpy (pre @ rest) off bs = pre @ bs @ drop (length bs) rest"
  by (simp add: memcpy_def)

lemma length_memcpy:
  "off + length bs \<le> length buf \<Longrightarrow> length (memcpy buf off bs) = length buf"
  by (simp add: memcpy_def)

lemma serialize_loop_append:
  "serialize_loop td t (xs @ ys) d =
     (case serialize_loop td t xs d of Inl e \<Rightarrow> Inl e | Inr d' \<Rightarrow> serialize_loop td t ys d')"
  by (induction xs arbitrary: d) (auto split: sum.splits)

lemma serialize_field_at:
  assumes wf: "td_wf td" and c: "map holds_type t = td_types td" and k: "k < length t"
    and pre: "length pre = td_offsets td ! k"
  shows "serialize_field td t (pre @ rest) k =
           Inr (pre @ field_bytes (t ! k) @ drop (size_of_fixed (td_types td ! k)) rest)"
proof -
  have ty: "td_types td ! k = holds_type (t ! k)"
    using c k by (metis nth_map)
  show ?thesis
  proof (cases "t ! k")
    case (IntF v)
    then show ?thesis using ty k pre
      by (simp add: serialize_field_def get_field_def memcpy_at field_bytes_def
          size_of_fixed_def INT_SIZE_def length_int_to_bytes)
  next
    case (DoubleF v)
    then show ?thesis using ty k pre
      by (simp add: serialize_field_def get_field_def memcpy_at field_bytes_def
          size_of_fixed_def DOUBLE_SIZE_def length_double_to_bytes)
  next
    case (CharF s)
    show ?thesis
    proof (cases "length s < CHAR_SIZE")
      case True
      have "memcpy (memcpy (pre @ rest) (td_offsets td ! k) s) (td_offsets td ! k + length s)
              (replicate (CHAR_SIZE - length s) 0)
            = pre @ s @ replicate (CHAR_SIZE - length s) 0 @ drop CHAR_SIZE rest"
        using pre True memcpy_at [of "pre @ s" "td_offsets td ! k + length s" "drop (length s) rest"
            "replicate (CHAR_SIZE - length s) 0"]
        by (simp add: memcpy_at)
      then show ?thesis using ty k CharF True
        by (simp add: serialize_field_def get_field_def field_bytes_def
          size_of_fixed_def spec_trunc_pad_def)
    next
      case False
      then show ?thesis using ty k pre CharF
        by (simp add: serialize_field_def get_field_def memcpy_at field_bytes_def
          size_of_fixed_def spec_trunc_pad_def)
    qed
  qed
qed

lemma length_concat_field_bytes:
  "length (concat (map field_bytes t)) = sum_list (map size_of_fixed (map holds_type t))"
  by (induction t) (auto simp: length_field_bytes)

lemma serialize_loop_prefix:
  assumes wf: "td_wf td" and c: "map holds_type t = td_types td"
  shows "k \<le> length t \<Longrightarrow>
     serialize_loop td t [0..<k] data =
       Inr (concat (map field_bytes (take k t)) @
            drop (sum_list (map size_of_fixed (take k (td_types td)))) data)
     \<or> \<not> sum_list (map size_of_fixed (take k (td_types td))) \<le> length data"
proof (induction k)
  case 0
  then show ?case by simp
next
  case (Suc k)
  let ?off = "sum_list (map size_of_fixed (take k (td_types td)))"
  let ?pre = "concat (map field_bytes (take k t))"
  have k: "k < length t" using Suc.prems by simp
  have kt: "k < length (td_types td)" using k c by (metis length_map)
  show ?case
  proof (cases "sum_list (map size_of_fixed (take (Suc k) (td_types td))) \<le> length data")
    case False
    then show ?thesis by simp
  next
    case True
    have sz: "sum_list (map size_of_fixed (take (Suc k) (td_types td))) = ?off + size_of_fixed (td_types td ! k)"
      using kt by (simp add: take_Suc_conv_app_nth)
    with True have le: "?off \<le> length data" by simp
    with Suc have ih: "serialize_loop td t [0..<k] data = Inr (?pre @ drop ?off data)" by simp
    have offk: "td_offsets td ! k = ?off"
      using wf kt offsets_from_nth [of k "td_types td" 0] by (simp add: td_wf_def)
    have "take k (td_types td) = map holds_type (take k t)"
      using c by (metis take_map)
    then have lpre: "length ?pre = td_offsets td ! k"
      using offk by (simp add: length_concat_field_bytes)
    have tk: "take (Suc k) t = take k t @ [t ! k]"
      using k by (simp add: take_Suc_conv_app_nth)
    show ?thesis
      using ih serialize_field_at [OF wf c k lpre, of "drop ?off data"] sz tk
      by (simp add: serialize_loop_append add.commute)
  qed
qed

lemma serialize_eq:
  assumes wf: "td_wf td" and c: "compatible td t" and len: "td_length td \<le> length data"
  shows "serialize td data t = Inr (concat (map field_bytes t) @ drop (td_length td) data)"
proof -
  have c': "map holds_type t = td_types td" using c by (simp add: compatible_iff)
  then have n: "length (td_types td) = length t" by (metis length_map)
  have L: "td_length td = sum_list (map size_of_fixed (td_types td))"
    using wf offsets_from_snd [of 0 "td_types td"] by (simp add: td_wf_def)
  show ?thesis
    using serialize_loop_prefix [OF wf c', of "length t" data] c len L n
    by (simp add: serialize_def)
qed


lemma char_len_eq:
  "CHAR_SIZE \<le> length csrc \<Longrightarrow> k \<le> CHAR_SIZE \<Longrightarrow>
   char_len csrc k = k + length (takeWhile (\<lambda>c. c \<noteq> 0) (take (CHAR_SIZE - k) (drop k csrc)))"
proof (induction csrc k rule: char_len.induct)
  case (1 csrc len)
  show ?case
  proof (cases "len < CHAR_SIZE")
    case False
    with "1.prems" show ?thesis by (simp add: char_len.simps)
  next
    case True
    then have lt: "len < length csrc" using "1.prems" by simp
    have d: "drop len csrc = csrc ! len # drop (Suc len) csrc"
      using lt by (simp add: Cons_nth_drop_Suc)
    obtain m where m: "CHAR_SIZE - len = Suc m" "CHAR_SIZE - Suc len = m"
      using True by (metis Suc_diff_Suc)
    show ?thesis
    proof (cases "csrc ! len = 0")
      case True
      then show ?thesis using d m by (simp add: char_len.simps)
    next
      case False
      with True "1.prems" have "char_len csrc (Suc len) =
          Suc len + length (takeWhile (\<lambda>c. c \<noteq> 0) (take (CHAR_SIZE - Suc len) (drop (Suc len) csrc)))"
        by (intro "1.IH") simp_all
      then show ?thesis using False True d m by (simp add: char_len.simps)
    qed
  qed
qed

lemma take_char_len:
  assumes "CHAR_SIZE \<le> length csrc"
  shows "take (char_len csrc 0) csrc = takeWhile (\<lambda>c. c \<noteq> 0) (take CHAR_SIZE csrc)"
proof -
  let ?w = "takeWhile (\<lambda>c. c \<noteq> 0) (take CHAR_SIZE csrc)"
  have "char_len csrc 0 = length ?w"
    using char_len_eq [OF assms, of 0] by simp
  moreover have "length ?w \<le> CHAR_SIZE"
    by (rule order_trans [OF length_takeWhile_le]) simp
  moreover have "?w = take (length ?w) (take CHAR_SIZE csrc)"
    by (rule takeWhile_eq_take)
  ultimately show ?thesis by (simp add: min_def)
qed

lemma length_spec_trunc_pad: "length (spec_trunc_pad s) = CHAR_SIZE"
  by (simp add: spec_trunc_pad_def)

lemma drop_offset_concat:
  assumes wf: "td_wf td" and c: "map holds_type t = td_types td" and i: "i < length t"
  shows "drop (td_offsets td ! i) (concat (map field_bytes t) @ rest) =
           field_bytes (t ! i) @ concat (map field_bytes (drop (Suc i) t)) @ rest"
proof -
  have it: "i < length (td_types td)" using c i by (metis length_map)
  have "td_offsets td ! i = sum_list (map size_of_fixed (take i (td_types td)))"
    using wf it offsets_from_nth [of i "td_types td" 0] by (simp add: td_wf_def)
  also have "take i (td_types td) = map holds_type (take i t)"
    using c by (metis take_map)
  finally have off: "td_offsets td ! i = length (concat (map field_bytes (take i t)))"
    by (simp add: length_concat_field_bytes)
  have "concat (map field_bytes t) =
          concat (map field_bytes (take i t)) @ field_bytes (t ! i) @
          concat (map field_bytes (drop (Suc i) t))"
    using id_take_nth_drop [OF i] by (metis concat.simps(2) concat_append list.simps(9) map_append)
  then show ?thesis using off by simp
qed

lemma deserialize_field_at:
  assumes wf: "td_wf td" and c: "map holds_type t = td_types td" and i: "i < length t"
  shows "deserialize_field td (concat (map field_bytes t) @ rest) i = spec_stored_field (t ! i)"
proof -
  have ty: "td_types td ! i = holds_type (t ! i)"
    using c i by (metis nth_map)
  note d = drop_offset_concat [OF wf c i, of rest]
  show ?thesis
  proof (cases "t ! i")
    case (IntF v)
    then show ?thesis using ty d
      by (simp add: deserialize_field_def field_bytes_def INT_SIZE_def length_int_to_bytes
          bytes_to_int_inverse spec_stored_field_def)
  next
    case (DoubleF v)
    then show ?thesis using ty d
      by (simp add: deserialize_field_def field_bytes_def DOUBLE_SIZE_def length_double_to_bytes
          bytes_to_double_inverse spec_stored_field_def)
  next
    case (CharF s)
    let ?ptr = "drop (td_offsets td ! i) (concat (map field_bytes t) @ rest)"
    have p: "?ptr = spec_trunc_pad s @ concat (map field_bytes (drop (Suc i) t)) @ rest"
      using d CharF by (simp add: field_bytes_def)
    then have "CHAR_SIZE \<le> length ?ptr" by (simp add: length_spec_trunc_pad)
    then have "take (char_len ?ptr 0) ?ptr = takeWhile (\<lambda>c. c \<noteq> 0) (take CHAR_SIZE ?ptr)"
      by (rule take_char_len)
    also have "take CHAR_SIZE ?ptr = spec_trunc_pad s"
      using p by (simp add: length_spec_trunc_pad)
    finally show ?thesis using ty CharF
      by (simp add: deserialize_field_def spec_stored_field_def)
  qed
qed

lemma deserialize_eq:
  assumes wf: "td_wf td" and c: "compatible td t"
  shows "deserialize td (concat (map field_bytes t) @ rest) = map spec_stored_field t"
proof -
  have c': "map holds_type t = td_types td" using c by (simp add: compatible_iff)
  then have n: "length (td_types td) = length t" by (metis length_map)
  show ?thesis
    unfolding deserialize_def
    by (rule nth_equalityI) (simp_all add: n deserialize_field_at [OF wf c'])
qed

lemma spec_stored_field_id:
  assumes "\<And>s. f = CharF s \<Longrightarrow> length s \<le> CHAR_SIZE \<and> 0 \<notin> set s"
  shows "spec_stored_field f = f"
proof (cases f)
  case (CharF s)
  with assms have s: "length s \<le> CHAR_SIZE" "0 \<notin> set s" by simp_all
  then have "\<forall>x\<in>set s. x \<noteq> 0" by auto
  then have "takeWhile (\<lambda>c. c \<noteq> 0) (s @ replicate (CHAR_SIZE - length s) 0) = s"
    by (simp add: takeWhile_append2 takeWhile_replicate)
  then show ?thesis using CharF s by (simp add: spec_stored_field_def spec_trunc_pad_def)
qed (simp_all add: spec_stored_field_def)

section \<open>C8: the serialization round trip\<close>

text \<open>
  Claim C8. For a tuple \<open>t\<close> compatible with a \<^verbatim>\<open>TupleDesc\<close> \<open>td\<close> (built by the
  constructor), serializing \<open>t\<close> into a buffer of at least \<^verbatim>\<open>td.length()\<close> bytes succeeds and
  deserializing the result gives \<open>t\<close> back with every CHAR field truncated to \<^verbatim>\<open>CHAR_SIZE\<close>
  bytes, null-padded and read back up to the first NUL; INT and DOUBLE fields are unchanged.
  In particular the round trip is the identity when every CHAR field is shorter than
  \<^verbatim>\<open>CHAR_SIZE\<close> and has no NUL byte.
\<close>

theorem serialize_deserialize_roundtrip:
  assumes "TupleDesc_new tys nms = Inr td" and "compatible td t"
    and "td_length td \<le> length data"
  shows "\<exists>data'. serialize td data t = Inr data' \<and>
           deserialize td data' = map spec_stored_field t \<and>
           ((\<forall>s. CharF s \<in> set t \<longrightarrow> length s < CHAR_SIZE \<and> 0 \<notin> set s)
              \<longrightarrow> deserialize td data' = t)"
proof -
  have wf: "td_wf td" using assms(1) by (rule TupleDesc_new_wf)
  have ser: "serialize td data t = Inr (concat (map field_bytes t) @ drop (td_length td) data)"
    using wf assms(2,3) by (rule serialize_eq)
  have des: "deserialize td (concat (map field_bytes t) @ drop (td_length td) data)
               = map spec_stored_field t"
    using wf assms(2) by (rule deserialize_eq)
  have "map spec_stored_field t = t"
    if "\<forall>s. CharF s \<in> set t \<longrightarrow> length s < CHAR_SIZE \<and> 0 \<notin> set s"
  proof -
    have "spec_stored_field f = f" if "f \<in> set t" for f
      using that \<open>\<forall>s. CharF s \<in> set t \<longrightarrow> length s < CHAR_SIZE \<and> 0 \<notin> set s\<close>
      by (intro spec_stored_field_id) auto
    then show ?thesis by (simp add: map_idI)
  qed
  with ser des show ?thesis by simp
qed

theorem serialize_deserialize_roundtrip_witness:
  "TupleDesc_new [T_INT, T_CHAR] [''id'', ''name''] = Inr td_example \<and>
   compatible td_example [IntF 7, CharF [97, 98]] \<and>
   (\<exists>data'. serialize td_example (replicate 68 0) [IntF 7, CharF [97, 98]] = Inr data' \<and>
       deserialize td_example data' = [IntF 7, CharF [97, 98]])"
proof -
  have a: "TupleDesc_new [T_INT, T_CHAR] [''id'', ''name''] = Inr td_example"
    by (simp add: TupleDesc_new_def td_example_def size_of_fixed_def INT_SIZE_def CHAR_SIZE_def)
  have b: "compatible td_example [IntF 7, CharF [97, 98]]"
    by (simp add: compatible_def td_example_def upt_rec)
  have c: "td_length td_example \<le> length (replicate 68 (0::u8))"
    by (simp add: td_example_def)
  have d: "\<forall>s. CharF s \<in> set [IntF 7, CharF [97, 98]] \<longrightarrow> length s < CHAR_SIZE \<and> 0 \<notin> set s"
    by (simp add: CHAR_SIZE_def)
  show ?thesis
    using serialize_deserialize_roundtrip [OF a b c] a b d by blast
qed

section \<open>Leaf page lemmas\<close>

lemma length_tuple_bytes:
  assumes "td_wf td" "compatible td t"
  shows "length (tuple_bytes t) = td_length td"
proof -
  have "map holds_type t = td_types td" using assms(2) by (simp add: compatible_iff)
  moreover have "td_length td = sum_list (map size_of_fixed (td_types td))"
    using assms(1) offsets_from_snd [of 0 "td_types td"] by (simp add: td_wf_def)
  ultimately show ?thesis
    by (simp add: tuple_bytes_def length_concat_field_bytes)
qed

lemma key_at_eq:
  assumes "td_wf td" "ki < length (td_types td)" "td_types td ! ki = T_INT"
  shows "key_at td ki data tbytes slot =
           Inr (bytes_to_int (take INT_SIZE (drop (slot * tbytes + td_offsets td ! ki) data)))"
  using assms
  by (simp add: key_at_def deserialize_def get_field_def get_int_def deserialize_field_def
      add.commute)

lemma key_at_slot_key:
  assumes "leaf_wf lp"
  shows "key_at (lp_td lp) (lp_key_index lp) (lp_data lp) (td_length (lp_td lp)) i = Inr (slot_key lp i)"
  using assms by (simp add: leaf_wf_def key_at_eq slot_key_def)

lemma insert_search_bounds:
  assumes k: "\<And>i. key_at td ki data tbytes i = Inr (key i)"
  shows "lo \<le> hi \<Longrightarrow>
    \<exists>pos. insert_search td ki data tbytes k lo hi = Inr pos \<and> lo \<le> pos \<and> pos \<le> hi \<and>
          (pos = lo \<or> int_less (key (pos - 1)) k) \<and>
          (pos = hi \<or> \<not> int_less (key pos) k)"
  using k
proof (induction td ki data tbytes k lo hi rule: insert_search.induct)
  case (1 td ki data tbytes k lo hi)
  note k = "1.prems"(2)
  show ?case
  proof (cases "lo < hi")
    case False
    with "1.prems" show ?thesis by (simp add: insert_search.simps)
  next
    case True
    let ?mid = "(lo + hi) div 2"
    have m: "lo \<le> ?mid" "?mid < hi" using True by simp_all
    show ?thesis
    proof (cases "int_less (key ?mid) k")
      case less: True
      have "\<exists>pos. insert_search td ki data tbytes k (?mid + 1) hi = Inr pos \<and> ?mid + 1 \<le> pos \<and> pos \<le> hi \<and>
          (pos = ?mid + 1 \<or> int_less (key (pos - 1)) k) \<and> (pos = hi \<or> \<not> int_less (key pos) k)"
        using m by (intro "1.IH"(1) [OF True refl k less]) (simp_all add: k)
      then obtain pos where p: "insert_search td ki data tbytes k (?mid + 1) hi = Inr pos"
        "?mid + 1 \<le> pos" "pos \<le> hi" "pos = ?mid + 1 \<or> int_less (key (pos - 1)) k"
        "pos = hi \<or> \<not> int_less (key pos) k" by blast
      have "insert_search td ki data tbytes k lo hi = Inr pos"
        using True less p(1) by (subst insert_search.simps) (simp add: k)
      moreover have "int_less (key (pos - 1)) k" using p(4) less by auto
      ultimately show ?thesis using p m by auto
    next
      case False
      have "\<exists>pos. insert_search td ki data tbytes k lo ?mid = Inr pos \<and> lo \<le> pos \<and> pos \<le> ?mid \<and>
          (pos = lo \<or> int_less (key (pos - 1)) k) \<and> (pos = ?mid \<or> \<not> int_less (key pos) k)"
        using m by (intro "1.IH"(2) [OF True refl k False]) (simp_all add: k)
      then obtain pos where p: "insert_search td ki data tbytes k lo ?mid = Inr pos"
        "lo \<le> pos" "pos \<le> ?mid" "pos = lo \<or> int_less (key (pos - 1)) k"
        "pos = ?mid \<or> \<not> int_less (key pos) k" by blast
      have "insert_search td ki data tbytes k lo hi = Inr pos"
        using True False p(1) by (subst insert_search.simps) (simp add: k)
      moreover have "\<not> int_less (key pos) k" using p(5) False by auto
      ultimately show ?thesis using p m by auto
    qed
  qed
qed

lemma leaf_sorted_lower_bound:
  assumes s: "leaf_sorted lp" and pos: "pos \<le> lp_size lp"
    and lo: "pos = 0 \<or> int_less (slot_key lp (pos - 1)) k"
    and hi: "pos = lp_size lp \<or> \<not> int_less (slot_key lp pos) k"
  shows "(\<forall>i<pos. int_less (slot_key lp i) k) \<and>
         (\<forall>i. pos \<le> i \<and> i < lp_size lp \<longrightarrow> \<not> int_less (slot_key lp i) k)"
proof (intro conjI allI impI)
  fix i assume i: "i < pos"
  then have "pos \<noteq> 0" by simp
  with lo have l: "int_less (slot_key lp (pos - 1)) k" by simp
  have "\<not> int_less (slot_key lp (pos - 1)) (slot_key lp i)"
    using s i pos by (simp add: leaf_sorted_def)
  with l show "int_less (slot_key lp i) k" by (simp add: int_less_def)
next
  fix i assume i: "pos \<le> i \<and> i < lp_size lp"
  then have "pos \<noteq> lp_size lp" by simp
  with hi have h: "\<not> int_less (slot_key lp pos) k" by simp
  have "\<not> int_less (slot_key lp i) (slot_key lp pos)"
    using s i by (simp add: leaf_sorted_def)
  with h show "\<not> int_less (slot_key lp i) k" by (simp add: int_less_def)
qed

lemma serialize_at_eq:
  assumes wf: "td_wf td" and c: "compatible td t" and len: "off + td_length td \<le> length data"
  shows "serialize_at td data off t = Inr (memcpy data off (tuple_bytes t))"
proof -
  have "serialize td (drop off data) t =
          Inr (tuple_bytes t @ drop (td_length td) (drop off data))"
    unfolding tuple_bytes_def using wf c len by (intro serialize_eq) simp_all
  then show ?thesis
    using length_tuple_bytes [OF wf c]
    by (simp add: serialize_at_def memcpy_def add.commute)
qed


lemma td_length_pos:
  assumes "td_wf td" "ki < length (td_types td)" "td_types td ! ki = T_INT"
  shows "0 < td_length td"
proof -
  have "map size_of_fixed (td_types td) ! ki \<le> sum_list (map size_of_fixed (td_types td))"
    using assms(2) by (intro elem_le_sum_list) simp
  then have "size_of_fixed (td_types td ! ki) \<le> sum_list (map size_of_fixed (td_types td))"
    using assms(2) by simp
  moreover have "td_length td = sum_list (map size_of_fixed (td_types td))"
    using assms(1) offsets_from_snd [of 0 "td_types td"] by (simp add: td_wf_def)
  ultimately show ?thesis using assms(3) by (simp add: size_of_fixed_def INT_SIZE_def)
qed

lemma leaf_capacity_bytes:
  assumes "leaf_wf lp"
  shows "lp_capacity lp * td_length (lp_td lp) \<le> length (lp_data lp)"
  using assms by (simp add: leaf_wf_def)

lemma leaf_capacity_less: 
  assumes "leaf_wf lp"
  shows "lp_capacity lp < 65536"
proof -
  have "lp_capacity lp \<le> DEFAULT_PAGE_SIZE - sizeof_LeafPageHeader"
    using assms by (simp add: leaf_wf_def)
  then show ?thesis by (simp add: DEFAULT_PAGE_SIZE_def sizeof_LeafPageHeader_def)
qed

lemma slot_in_page:
  assumes "leaf_wf lp" "i < lp_capacity lp"
  shows "i * td_length (lp_td lp) + td_length (lp_td lp) \<le> length (lp_data lp)"
proof -
  have "Suc i * td_length (lp_td lp) \<le> lp_capacity lp * td_length (lp_td lp)"
    using assms(2) by (intro mult_le_mono1) simp
  with leaf_capacity_bytes [OF assms(1)] show ?thesis by simp
qed

lemma shift_arith:
  fixes pos n T :: nat
  assumes "pos \<le> n"
  shows "(pos + 1) * T + (n - pos) * T = (n + 1) * T" and "pos * T + (n - pos) * T = n * T"
proof -
  have "(pos + 1) + (n - pos) = n + 1" "pos + (n - pos) = n" using assms by simp_all
  then show "(pos + 1) * T + (n - pos) * T = (n + 1) * T" and "pos * T + (n - pos) * T = n * T"
    by (metis distrib_right)+
qed

lemma length_memmove_shift:
  fixes pos n T :: nat
  assumes "pos \<le> n" "(n + 1) * T \<le> length data"
  shows "length (memmove data ((pos + 1) * T) (pos * T) ((n - pos) * T)) = length data"
proof -
  have "n * T \<le> (n + 1) * T" by simp
  then have "n * T \<le> length data" using assms(2) by (rule order_trans)
  then have "pos * T + (n - pos) * T \<le> length data"
    using shift_arith(2) [OF assms(1), of T] by simp
  then have l: "length (take ((n - pos) * T) (drop (pos * T) data)) = (n - pos) * T"
    by simp
  show ?thesis
    unfolding memmove_def
    by (rule length_memcpy) (simp only: l shift_arith(1) [OF assms(1)] assms(2))
qed

lemma shift_insert_bytes:
  assumes "pos \<le> n" "(n + 1) * T \<le> length data" "length tb = T"
  shows "memcpy (memmove data ((pos + 1) * T) (pos * T) ((n - pos) * T)) (pos * T) tb =
           take (pos * T) data @ tb @ take ((n - pos) * T) (drop (pos * T) data) @
           drop ((n + 1) * T) data"
proof -
  note a = shift_arith(1) [OF assms(1), of T]
  note b = shift_arith(2) [OF assms(1), of T]
  have c: "pos * T \<le> length data" "n * T \<le> length data" 
    using assms(1,2) b by simp_all
  have d: "(pos + 1) * T = pos * T + T" by simp
  have e: "pos * T + T \<le> length data"
  proof -
    have "pos + 1 \<le> n + 1" using assms(1) by simp
    then have "(pos + 1) * T \<le> (n + 1) * T" by (rule mult_le_mono1)
    then have "pos * T + T \<le> (n + 1) * T" unfolding d .
    then show ?thesis using assms(2) by (rule order_trans)
  qed
  have l: "length (take ((n - pos) * T) (drop (pos * T) data)) = (n - pos) * T"
    using c b by simp
  have m: "memmove data ((pos + 1) * T) (pos * T) ((n - pos) * T) =
          take (pos * T) data @ take T (drop (pos * T) data) @ 
          take ((n - pos) * T) (drop (pos * T) data) @ drop ((n + 1) * T) data"
  proof -
    have a': "pos * T + T + (n - pos) * T = (n + 1) * T" using a unfolding d .
    have "memmove data (pos * T + T) (pos * T) ((n - pos) * T) =
            take (pos * T + T) data @ take ((n - pos) * T) (drop (pos * T) data) @
            drop (pos * T + T + (n - pos) * T) data"
      unfolding memmove_def memcpy_def l ..
    then show ?thesis unfolding a' take_add d append_assoc .
  qed
  have lt: "length (take T (drop (pos * T) data)) = T"
    using e by simp
  show ?thesis
    unfolding m using c assms(3) lt
    by (simp add: memcpy_def)
qed


lemma compatible_key:
  assumes "compatible td t" "ki < length (td_types td)" "td_types td ! ki = T_INT"
  shows "\<exists>k. get_field t ki = Inr (IntF k)"
proof -
  have m: "map holds_type t = td_types td" using assms(1) by (simp add: compatible_iff)
  then have l: "ki < length t" using assms(2) by (metis length_map)
  then have "holds_type (t ! ki) = T_INT" using m assms(3) by (metis nth_map)
  then obtain k where "t ! ki = IntF k" by (cases "t ! ki") simp_all
  with l show ?thesis by (simp add: get_field_def)
qed

lemma LeafPage_insertTuple_unfold:
  assumes k: "get_field t (lp_key_index lp) = Inr (IntF k)"
    and pos: "insert_search (lp_td lp) (lp_key_index lp) (lp_data lp) (td_length (lp_td lp)) k 0
                (lp_size lp) = Inr pos"
    and key: "key_at (lp_td lp) (lp_key_index lp) (lp_data lp) (td_length (lp_td lp)) pos = Inr kp"
  shows "LeafPage_insertTuple lp t =
     (if pos < lp_size lp \<and> kp = k then
        (case serialize_at (lp_td lp) (lp_data lp) (pos * td_length (lp_td lp)) t of
                Inl e \<Rightarrow> Inl e
              | Inr data' \<Rightarrow> Inr (lp_size lp = lp_capacity lp, lp\<lparr>lp_data := data'\<rparr>))
      else if lp_size lp \<ge> lp_capacity lp then Inr (True, lp)
      else (case serialize_at (lp_td lp)
                   (if (lp_size lp - pos) * td_length (lp_td lp) \<noteq> 0
                    then memmove (lp_data lp) ((pos + 1) * td_length (lp_td lp))
                           (pos * td_length (lp_td lp)) ((lp_size lp - pos) * td_length (lp_td lp))
                    else lp_data lp)
                   (pos * td_length (lp_td lp)) t of
              Inl e \<Rightarrow> Inl e
            | Inr data2 \<Rightarrow>
                Inr ((lp_size lp + 1) mod 65536 = lp_capacity lp,
                     lp\<lparr>lp_data := data2, lp_size := (lp_size lp + 1) mod 65536\<rparr>)))"
  apply (simp only: LeafPage_insertTuple_def Let_def k pos key get_int_def sum.case field_t.case)
  apply (cases "pos < lp_size lp")
   apply (cases "kp = k")
    apply (simp only: if_True if_False sum.case bool.case simp_thms)
   apply (simp only: if_True if_False sum.case bool.case simp_thms)
  apply (simp only: if_True if_False sum.case bool.case simp_thms)
  done


section \<open>C1: insertion into a leaf page\<close>

text \<open>
  Claim C1. For a well-formed leaf page and a tuple \<open>t\<close> compatible with its schema,
  \<^verbatim>\<open>LeafPage::insertTuple\<close> reads the key \<open>k\<close> of \<open>t\<close>, and its binary search returns a
  position \<open>pos \<le> size\<close> which, on a page whose keys ascend, is the first position whose key
  is not less than \<open>k\<close>. If slot \<open>pos\<close> is occupied and holds key \<open>k\<close>, the bytes of \<open>t\<close>
  overwrite that slot, the size is unchanged and the result is \<open>size = capacity\<close>. Otherwise,
  if \<open>size = capacity\<close>, the page is unchanged and the result is true. Otherwise the bytes of
  slots \<open>[pos, size)\<close> move right by one slot, the bytes of \<open>t\<close> are written into slot \<open>pos\<close>,
  the size grows by one and the result is \<open>size + 1 = capacity\<close>.
\<close>

theorem LeafPage_insertTuple_spec:
  fixes lp :: LeafPage and t :: Tuple
  defines "T \<equiv> td_length (lp_td lp)" and "n \<equiv> lp_size lp" and "data \<equiv> lp_data lp"
  assumes wf: "leaf_wf lp" and c: "compatible (lp_td lp) t"
  shows "\<exists>k pos.
           get_field t (lp_key_index lp) = Inr (IntF k) \<and>
           insert_search (lp_td lp) (lp_key_index lp) data T k 0 n = Inr pos \<and>
           pos \<le> n \<and>
           (leaf_sorted lp \<longrightarrow>
              (\<forall>i<pos. int_less (slot_key lp i) k) \<and>
              (\<forall>i. pos \<le> i \<and> i < n \<longrightarrow> \<not> int_less (slot_key lp i) k)) \<and>
           LeafPage_insertTuple lp t =
             (if pos < n \<and> slot_key lp pos = k
              then Inr (n = lp_capacity lp,
                        lp\<lparr>lp_data := memcpy data (pos * T) (tuple_bytes t)\<rparr>)
              else if n = lp_capacity lp then Inr (True, lp)
              else Inr (n + 1 = lp_capacity lp,
                        lp\<lparr>lp_data := take (pos * T) data @ tuple_bytes t @
                                        take ((n - pos) * T) (drop (pos * T) data) @
                                        drop ((n + 1) * T) data,
                           lp_size := n + 1\<rparr>))"
  unfolding T_def n_def data_def
proof -
  let ?T = "td_length (lp_td lp)" and ?n = "lp_size lp" and ?data = "lp_data lp"
  have twf: "td_wf (lp_td lp)" and ki: "lp_key_index lp < length (td_types (lp_td lp))"
    and kt: "td_types (lp_td lp) ! lp_key_index lp = T_INT" and ncap: "?n \<le> lp_capacity lp"
    using wf by (simp_all add: leaf_wf_def)
  obtain k where k: "get_field t (lp_key_index lp) = Inr (IntF k)"
    using compatible_key [OF c ki kt] by blast
  have keys: "\<And>i. key_at (lp_td lp) (lp_key_index lp) ?data ?T i = Inr (slot_key lp i)"
    by (rule key_at_slot_key [OF wf])
  obtain pos where pos: "insert_search (lp_td lp) (lp_key_index lp) ?data ?T k 0 ?n = Inr pos"
    "pos \<le> ?n" "pos = 0 \<or> int_less (slot_key lp (pos - 1)) k"
    "pos = ?n \<or> \<not> int_less (slot_key lp pos) k"
    using insert_search_bounds [OF keys, of 0 ?n k] by auto
  have sorted: "(\<forall>i<pos. int_less (slot_key lp i) k) \<and>
      (\<forall>i. pos \<le> i \<and> i < ?n \<longrightarrow> \<not> int_less (slot_key lp i) k)" if "leaf_sorted lp"
    by (rule leaf_sorted_lower_bound [OF that pos(2,3,4)])
  have Tb: "length (tuple_bytes t) = ?T"
    by (rule length_tuple_bytes [OF twf c])
  have Tpos: "0 < ?T" by (rule td_length_pos [OF twf ki kt])
  have ser: "serialize_at (lp_td lp) d (pos * ?T) t = Inr (memcpy d (pos * ?T) (tuple_bytes t))"
    if "pos * ?T + ?T \<le> length d" for d
    using that by (intro serialize_at_eq [OF twf c])
  note u = LeafPage_insertTuple_unfold [OF k pos(1) keys]
  let ?rhs = "(if pos < ?n \<and> slot_key lp pos = k
              then Inr (?n = lp_capacity lp,
                        lp\<lparr>lp_data := memcpy ?data (pos * ?T) (tuple_bytes t)\<rparr>)
              else if ?n = lp_capacity lp then Inr (True, lp)
              else Inr (?n + 1 = lp_capacity lp,
                        lp\<lparr>lp_data := take (pos * ?T) ?data @ tuple_bytes t @
                                        take ((?n - pos) * ?T) (drop (pos * ?T) ?data) @
                                        drop ((?n + 1) * ?T) ?data,
                           lp_size := ?n + 1\<rparr>))"
  consider (upsert) "pos < ?n \<and> slot_key lp pos = k"
    | (full) "\<not> (pos < ?n \<and> slot_key lp pos = k)" "?n = lp_capacity lp"
    | (room) "\<not> (pos < ?n \<and> slot_key lp pos = k)" "?n < lp_capacity lp"
    using ncap by fastforce
  then have res: "LeafPage_insertTuple lp t = ?rhs"
  proof cases
    case upsert
    have "pos < lp_capacity lp" using upsert ncap by simp
    then have "pos * ?T + ?T \<le> length ?data"
      by (rule slot_in_page [OF wf])
    then have s: "serialize_at (lp_td lp) ?data (pos * ?T) t = Inr (memcpy ?data (pos * ?T) (tuple_bytes t))"
      by (rule ser)
    show ?thesis
      unfolding u s by (simp only: upsert if_True sum.case simp_thms)
  next
    case full
    have ge: "lp_capacity lp \<le> ?n" using full(2) by simp
    have eqT: "(?n = lp_capacity lp) \<longleftrightarrow> True" using full(2) by simp
    show ?thesis
      unfolding u by (simp only: full(1) ge eqT if_True if_False simp_thms)
  next
    case room
    have nge: "\<not> lp_capacity lp \<le> ?n" "(?n = lp_capacity lp) \<longleftrightarrow> False"
      using room(2) by simp_all
    have n1: "(?n + 1) mod 65536 = ?n + 1"
      using room(2) leaf_capacity_less [OF wf] by simp
    have "?n < lp_capacity lp" by (rule room(2))
    then have nb: "(?n + 1) * ?T \<le> length ?data"
      using slot_in_page [OF wf, of ?n] by simp
    have pb: "pos * ?T + ?T \<le> length ?data"
    proof -
      have "pos < lp_capacity lp" using pos(2) room(2) by simp
      then show ?thesis by (rule slot_in_page [OF wf])
    qed
    let ?d1 = "(if (?n - pos) * ?T \<noteq> 0
               then memmove ?data ((pos + 1) * ?T) (pos * ?T) ((?n - pos) * ?T) else ?data)"
    have l1: "length ?d1 = length ?data"
    proof (cases "(?n - pos) * ?T \<noteq> 0")
      case True
      then show ?thesis
        using length_memmove_shift [OF pos(2) nb] by (simp only: if_True simp_thms)
    next
      case False
      then show ?thesis by (simp only: if_False simp_thms)
    qed
    have s: "serialize_at (lp_td lp) ?d1 (pos * ?T) t = Inr (memcpy ?d1 (pos * ?T) (tuple_bytes t))"
      using pb l1 by (intro ser) (simp only:)
    have sh: "memcpy ?d1 (pos * ?T) (tuple_bytes t) =
            take (pos * ?T) ?data @ tuple_bytes t @
              take ((?n - pos) * ?T) (drop (pos * ?T) ?data) @ drop ((?n + 1) * ?T) ?data"
    proof (cases "(?n - pos) * ?T \<noteq> 0")
      case True
      then show ?thesis
        using shift_insert_bytes [OF pos(2) nb Tb] by (simp only: if_True simp_thms)
    next
      case False
      then have "pos = ?n" using Tpos pos(2) by simp
      then show ?thesis
        by (simp add: memcpy_def Tb add.commute)
    qed
    show ?thesis
      unfolding u s sh n1 by (simp only: room(1) nge if_False sum.case simp_thms)
  qed
  show "\<exists>k pos.
           get_field t (lp_key_index lp) = Inr (IntF k) \<and>
           insert_search (lp_td lp) (lp_key_index lp) ?data ?T k 0 ?n = Inr pos \<and>
           pos \<le> ?n \<and>
           (leaf_sorted lp \<longrightarrow>
              (\<forall>i<pos. int_less (slot_key lp i) k) \<and>
              (\<forall>i. pos \<le> i \<and> i < ?n \<longrightarrow> \<not> int_less (slot_key lp i) k)) \<and>
           LeafPage_insertTuple lp t =
             (if pos < ?n \<and> slot_key lp pos = k
              then Inr (?n = lp_capacity lp,
                        lp\<lparr>lp_data := memcpy ?data (pos * ?T) (tuple_bytes t)\<rparr>)
              else if ?n = lp_capacity lp then Inr (True, lp)
              else Inr (?n + 1 = lp_capacity lp,
                        lp\<lparr>lp_data := take (pos * ?T) ?data @ tuple_bytes t @
                                        take ((?n - pos) * ?T) (drop (pos * ?T) ?data) @
                                        drop ((?n + 1) * ?T) ?data,
                           lp_size := ?n + 1\<rparr>))"
    using k pos(1,2) sorted res by blast
qed


lemma td_example_wf: "td_wf td_example"
  by (simp add: td_wf_def td_example_def size_of_fixed_def INT_SIZE_def CHAR_SIZE_def)

lemma compatible_td_example: "compatible td_example [IntF k, CharF s]"
  by (simp add: compatible_iff td_example_def)

lemma leaf_example_fields:
  "lp_td leaf_example = td_example" "lp_key_index leaf_example = 0"
  "lp_capacity leaf_example = 60" "lp_size leaf_example = 1"
  "lp_data leaf_example = tuple_bytes [IntF 5, CharF [97]] @ replicate 4012 0"
  by (simp_all add: leaf_example_def LeafPage_new_def Let_def DEFAULT_PAGE_SIZE_def
      sizeof_LeafPageHeader_def td_example_def)

lemma leaf_example_wf: "leaf_wf leaf_example"
  unfolding leaf_wf_def leaf_example_fields
  using length_tuple_bytes [OF td_example_wf compatible_td_example, of 5 "[97]"]
  by (simp add: td_example_wf DEFAULT_PAGE_SIZE_def sizeof_LeafPageHeader_def)
     (simp add: td_example_def)

lemma leaf_example_key: "slot_key leaf_example 0 = 5"
proof -
  have "tuple_bytes [IntF 5, CharF [97]] = int_to_bytes 5 @ spec_trunc_pad [97]"
    by (simp add: tuple_bytes_def field_bytes_def)
  then show ?thesis
    unfolding slot_key_def leaf_example_fields
    by (simp add: td_example_def INT_SIZE_def length_int_to_bytes bytes_to_int_inverse)
qed

lemma leaf_example_sorted: "leaf_sorted leaf_example"
  by (simp add: leaf_sorted_def leaf_example_fields int_less_def)

theorem LeafPage_insertTuple_spec_witness:
  "leaf_wf leaf_example \<and> compatible (lp_td leaf_example) [IntF 3, CharF [98]] \<and>
   leaf_sorted leaf_example \<and>
   LeafPage_insertTuple leaf_example [IntF 3, CharF [98]] =
     Inr (False,
          leaf_example\<lparr>lp_data := tuple_bytes [IntF 3, CharF [98]] @
                                    take 68 (lp_data leaf_example) @
                                    drop 136 (lp_data leaf_example),
                        lp_size := 2\<rparr>)"
proof -
  have c: "compatible (lp_td leaf_example) [IntF 3, CharF [98]]"
    unfolding leaf_example_fields by (rule compatible_td_example)
  obtain k pos where
    k: "get_field [IntF 3, CharF [98]] (lp_key_index leaf_example) = Inr (IntF k)"
    and le: "pos \<le> lp_size leaf_example"
    and lb: "leaf_sorted leaf_example \<longrightarrow>
              (\<forall>i<pos. int_less (slot_key leaf_example i) k) \<and>
              (\<forall>i. pos \<le> i \<and> i < lp_size leaf_example \<longrightarrow> \<not> int_less (slot_key leaf_example i) k)"
    and r: "LeafPage_insertTuple leaf_example [IntF 3, CharF [98]] =
             (if pos < lp_size leaf_example \<and> slot_key leaf_example pos = k
              then Inr (lp_size leaf_example = lp_capacity leaf_example,
                        leaf_example\<lparr>lp_data := memcpy (lp_data leaf_example)
                           (pos * td_length (lp_td leaf_example)) (tuple_bytes [IntF 3, CharF [98]])\<rparr>)
              else if lp_size leaf_example = lp_capacity leaf_example then Inr (True, leaf_example)
              else Inr (lp_size leaf_example + 1 = lp_capacity leaf_example,
                        leaf_example\<lparr>lp_data := take (pos * td_length (lp_td leaf_example)) (lp_data leaf_example) @
                                        tuple_bytes [IntF 3, CharF [98]] @
                                        take ((lp_size leaf_example - pos) * td_length (lp_td leaf_example))
                                          (drop (pos * td_length (lp_td leaf_example)) (lp_data leaf_example)) @
                                        drop ((lp_size leaf_example + 1) * td_length (lp_td leaf_example))
                                          (lp_data leaf_example),
                           lp_size := lp_size leaf_example + 1\<rparr>))"
    using LeafPage_insertTuple_spec [OF leaf_example_wf c] by blast
  have k3: "k = 3" using k by (simp add: get_field_def leaf_example_fields)
  have "\<not> int_less (slot_key leaf_example 0) k"
    by (simp add: k3 leaf_example_key int_less_def)
  with lb leaf_example_sorted have "\<not> 0 < pos" by blast
  then have p0: "pos = 0" by simp
  have T: "td_length (lp_td leaf_example) = 68"
    by (simp add: leaf_example_fields(1) td_example_def)
  have "LeafPage_insertTuple leaf_example [IntF 3, CharF [98]] =
     Inr (False,
          leaf_example\<lparr>lp_data := tuple_bytes [IntF 3, CharF [98]] @
                                    take 68 (lp_data leaf_example) @
                                    drop 136 (lp_data leaf_example),
                        lp_size := 2\<rparr>)"
    unfolding r p0 T leaf_example_fields(3,4) leaf_example_key k3 by simp
  with leaf_example_wf c leaf_example_sorted show ?thesis by blast
qed

lemma key_offset_bound:
  assumes "td_wf td" "ki < length (td_types td)" "td_types td ! ki = T_INT"
  shows "td_offsets td ! ki + INT_SIZE \<le> td_length td"
proof -
  let ?sz = "map size_of_fixed (td_types td)"
  have o: "td_offsets td ! ki = sum_list (map size_of_fixed (take ki (td_types td)))"
    using assms(1,2) offsets_from_nth [of ki "td_types td" 0] by (simp add: td_wf_def)
  have l: "td_length td = sum_list ?sz"
    using assms(1) offsets_from_snd [of 0 "td_types td"] by (simp add: td_wf_def)
  have "td_types td = take ki (td_types td) @ td_types td ! ki # drop (Suc ki) (td_types td)"
    using assms(2) by (rule id_take_nth_drop)
  then have "sum_list ?sz = sum_list (map size_of_fixed (take ki (td_types td))) +
      size_of_fixed (td_types td ! ki) + sum_list (map size_of_fixed (drop (Suc ki) (td_types td)))"
    by (metis (no_types, lifting) add.assoc list.simps(9) map_append sum_list.Cons sum_list.append)
  then show ?thesis using o l assms(3) by (simp add: size_of_fixed_def)
qed

lemma prefix_read:
  "a + b \<le> c \<Longrightarrow> c \<le> length xs \<Longrightarrow> take a (drop b (take c xs @ ys)) = take a (drop b xs)"
proof -
  assume 1: "a + b \<le> c" and 2: "c \<le> length xs"
  have "drop b (take c xs @ ys) = take (c - b) (drop b xs) @ ys"
    using 1 2 by (simp add: drop_take)
  moreover have "a \<le> length (take (c - b) (drop b xs))" using 1 2 by simp
  ultimately have "take a (drop b (take c xs @ ys)) = take a (take (c - b) (drop b xs))"
    by simp
  also have "\<dots> = take a (drop b xs)" using 1 by (simp add: min_def)
  finally show ?thesis .
qed

lemma prefix_read_drop:
  assumes "a + b \<le> c" "m + c \<le> length xs"
  shows "take a (drop b (take c (drop m xs) @ ys)) = take a (drop (m + b) xs)"
proof -
  have "c \<le> length (drop m xs)" using assms(2) by simp
  with assms(1) have "take a (drop b (take c (drop m xs) @ ys)) = take a (drop b (drop m xs))"
    by (rule prefix_read)
  then show ?thesis by (simp add: add.commute)
qed

section \<open>C3: splitting a leaf page\<close>

text \<open>
  Claim C3. \<^verbatim>\<open>LeafPage::split\<close> on a well-formed leaf, with a well-formed new page over the
  same schema: on an empty leaf it throws \<^verbatim>\<open>std::logic_error\<close>; otherwise, with
  \<open>mid = size div 2\<close>, it returns the key of slot \<open>mid\<close>, truncates the leaf to size \<open>mid\<close>
  (nothing else of it changes), and the new page gets the bytes of slots \<open>[mid, size)\<close> from
  its slot 0 on, size \<open>size - mid\<close> and the leaf's \<^verbatim>\<open>next_leaf\<close>. Slot \<open>i\<close> of the new page
  equals the old slot \<open>mid + i\<close>, and the returned key is the new page's first key.
\<close>

theorem LeafPage_split_spec:
  fixes lp new_page :: LeafPage
  defines "T \<equiv> td_length (lp_td lp)" and "n \<equiv> lp_size lp" and "mid \<equiv> lp_size lp div 2"
  defines "new_page' \<equiv>
             new_page\<lparr>lp_data := take ((n - mid) * T) (drop (mid * T) (lp_data lp)) @
                                    drop ((n - mid) * T) (lp_data new_page),
                        lp_size := n - mid,
                        lp_next_leaf := lp_next_leaf lp\<rparr>"
  assumes wf: "leaf_wf lp" and wf': "leaf_wf new_page"
    and td: "lp_td new_page = lp_td lp" and ki: "lp_key_index new_page = lp_key_index lp"
  shows "LeafPage_split lp new_page =
           (if n = 0 then Inl LogicError
            else Inr (slot_key lp mid, lp\<lparr>lp_size := mid\<rparr>, new_page')) \<and>
         (0 < n \<longrightarrow>
            (\<forall>i<n - mid. slot_bytes new_page' i = slot_bytes lp (mid + i)) \<and>
            slot_key new_page' 0 = slot_key lp mid)"
  unfolding new_page'_def T_def n_def mid_def
proof -
  let ?T = "td_length (lp_td lp)" and ?n = "lp_size lp" and ?mid = "lp_size lp div 2"
  let ?np = "new_page\<lparr>lp_data := take ((?n - ?mid) * ?T) (drop (?mid * ?T) (lp_data lp)) @
                                    drop ((?n - ?mid) * ?T) (lp_data new_page),
                        lp_size := ?n - ?mid, lp_next_leaf := lp_next_leaf lp\<rparr>"
  have ncap: "?n \<le> lp_capacity lp" using wf by (simp add: leaf_wf_def)
  have n16: "?n < 65536" using ncap leaf_capacity_less [OF wf] by simp
  have m16: "?mid mod 65536 = ?mid" "(?n - ?mid) mod 65536 = ?n - ?mid" using n16 by simp_all
  have nT: "?n * ?T \<le> length (lp_data lp)"
  proof -
    have "?n * ?T \<le> lp_capacity lp * ?T" using ncap by (rule mult_le_mono1)
    then show ?thesis using leaf_capacity_bytes [OF wf] by (rule order_trans)
  qed
  have split: "?mid * ?T + (?n - ?mid) * ?T = ?n * ?T"
    by (rule shift_arith(2)) simp
  have lcopy: "length (take ((?n - ?mid) * ?T) (drop (?mid * ?T) (lp_data lp))) = (?n - ?mid) * ?T"
    using nT split by simp
  have key: "key_at (lp_td lp) (lp_key_index lp) (lp_data lp) ?T ?mid = Inr (slot_key lp ?mid)"
    by (rule key_at_slot_key [OF wf])
  have mc: "memcpy (lp_data new_page) 0 (take ((?n - ?mid) * ?T) (drop (?mid * ?T) (lp_data lp)))
              = take ((?n - ?mid) * ?T) (drop (?mid * ?T) (lp_data lp)) @
                drop ((?n - ?mid) * ?T) (lp_data new_page)"
    unfolding memcpy_def lcopy by simp
  have res1: "LeafPage_split lp new_page = Inr (slot_key lp ?mid, lp\<lparr>lp_size := ?mid\<rparr>, ?np)"
    if pos: "0 < ?n"
    using pos unfolding LeafPage_split_def Let_def m16 key mc
    by simp
  have res0: "LeafPage_split lp new_page = Inl LogicError" if z: "?n = 0"
    unfolding LeafPage_split_def Let_def by (simp only: z if_True simp_thms)
  have res: "LeafPage_split lp new_page =
      (if ?n = 0 then Inl LogicError else Inr (slot_key lp ?mid, lp\<lparr>lp_size := ?mid\<rparr>, ?np))"
  proof (cases "?n = 0")
    case True
    show ?thesis unfolding res0 [OF True] by (simp only: True if_True simp_thms)
  next
    case False
    then have "0 < ?n" by simp
    show ?thesis unfolding res1 [OF \<open>0 < ?n\<close>] by (simp only: False if_False simp_thms)
  qed
  have d: "lp_data ?np = take ((?n - ?mid) * ?T) (drop (?mid * ?T) (lp_data lp)) @
                                    drop ((?n - ?mid) * ?T) (lp_data new_page)"
    and t: "lp_td ?np = lp_td lp" and kn: "lp_key_index ?np = lp_key_index lp"
    using td ki by simp_all
  have b: "?mid * ?T + (?n - ?mid) * ?T \<le> length (lp_data lp)" using nT split by simp
  have slots: "slot_bytes ?np i = slot_bytes lp (?mid + i)" if "i < ?n - ?mid" for i
  proof -
    have "Suc i * ?T \<le> (?n - ?mid) * ?T" using that by (intro mult_le_mono1) simp
    then have a: "?T + i * ?T \<le> (?n - ?mid) * ?T" by simp
    show ?thesis
      unfolding slot_bytes_def d t
      by (simp only: distrib_right prefix_read_drop [OF a b])
  qed
  have k0: "slot_key ?np 0 = slot_key lp ?mid" if pos: "0 < ?n"
  proof -
    have twf: "td_wf (lp_td lp)" and kil: "lp_key_index lp < length (td_types (lp_td lp))"
      and kt: "td_types (lp_td lp) ! lp_key_index lp = T_INT"
      using wf by (simp_all add: leaf_wf_def)
    have "1 \<le> ?n - ?mid" using pos by simp
    then have "1 * ?T \<le> (?n - ?mid) * ?T" by (rule mult_le_mono1)
    then have "?T \<le> (?n - ?mid) * ?T" by (simp only: mult_1)
    with key_offset_bound [OF twf kil kt]
    have "td_offsets (lp_td lp) ! lp_key_index lp + INT_SIZE \<le> (?n - ?mid) * ?T"
      by (rule order_trans)
    then have a: "INT_SIZE + td_offsets (lp_td lp) ! lp_key_index lp \<le> (?n - ?mid) * ?T"
      by (simp only: add.commute)
    show ?thesis
      unfolding slot_key_def d t kn
      by (simp only: mult_0 add_0 prefix_read_drop [OF a b])
  qed
  show "LeafPage_split lp new_page =
         (if ?n = 0 then Inl LogicError
          else Inr (slot_key lp ?mid, lp\<lparr>lp_size := ?mid\<rparr>, ?np)) \<and>
       (0 < ?n \<longrightarrow>
       (\<forall>i<?n - ?mid. slot_bytes ?np i = slot_bytes lp (?mid + i)) \<and>
       slot_key ?np 0 = slot_key lp ?mid)"
  proof (intro conjI impI allI)
    show "LeafPage_split lp new_page =
         (if ?n = 0 then Inl LogicError
          else Inr (slot_key lp ?mid, lp\<lparr>lp_size := ?mid\<rparr>, ?np))" by (rule res)
  next
    fix i assume "i < ?n - ?mid"
    then show "slot_bytes ?np i = slot_bytes lp (?mid + i)" by (rule slots)
  next
    assume "0 < ?n"
    then show "slot_key ?np 0 = slot_key lp ?mid" by (rule k0)
  qed
qed

lemma leaf_fresh_fields:
  "lp_td leaf_fresh = td_example" "lp_key_index leaf_fresh = 0"
  "lp_capacity leaf_fresh = 60" "lp_size leaf_fresh = 0"
  "lp_data leaf_fresh = replicate 4080 0"
  by (simp_all add: leaf_fresh_def LeafPage_new_def Let_def DEFAULT_PAGE_SIZE_def
      sizeof_LeafPageHeader_def td_example_def)

lemma leaf_fresh_wf: "leaf_wf leaf_fresh"
  unfolding leaf_wf_def leaf_fresh_fields
  by (simp add: td_example_wf DEFAULT_PAGE_SIZE_def sizeof_LeafPageHeader_def)
     (simp add: td_example_def)

theorem LeafPage_split_spec_witness:
  "leaf_wf leaf_example \<and> leaf_wf leaf_fresh \<and> lp_td leaf_fresh = lp_td leaf_example \<and>
   lp_key_index leaf_fresh = lp_key_index leaf_example \<and> 0 < lp_size leaf_example \<and>
   LeafPage_split leaf_example leaf_fresh =
     Inr (5, leaf_example\<lparr>lp_size := 0\<rparr>,
          leaf_fresh\<lparr>lp_data := take 68 (lp_data leaf_example) @ drop 68 (lp_data leaf_fresh),
                       lp_size := 1, lp_next_leaf := - 1\<rparr>) \<and>
   slot_key (leaf_fresh\<lparr>lp_data := take 68 (lp_data leaf_example) @ drop 68 (lp_data leaf_fresh),
                        lp_size := 1, lp_next_leaf := - 1\<rparr>) 0 = 5"
proof -
  have td: "lp_td leaf_fresh = lp_td leaf_example"
    and ki: "lp_key_index leaf_fresh = lp_key_index leaf_example"
    and n: "0 < lp_size leaf_example"
    by (simp_all add: leaf_fresh_fields leaf_example_fields)
  have nl: "lp_next_leaf leaf_example = - 1"
    by (simp add: leaf_example_def LeafPage_new_def Let_def)
  have T: "td_length (lp_td leaf_example) = 68"
    by (simp add: leaf_example_fields(1) td_example_def)
  note th = LeafPage_split_spec [OF leaf_example_wf leaf_fresh_wf td ki,
      unfolded leaf_example_fields(4) T nl leaf_example_key]
  have r: "LeafPage_split leaf_example leaf_fresh =
     Inr (5, leaf_example\<lparr>lp_size := 0\<rparr>,
          leaf_fresh\<lparr>lp_data := take 68 (lp_data leaf_example) @ drop 68 (lp_data leaf_fresh),
                       lp_size := 1, lp_next_leaf := - 1\<rparr>)"
    using th [THEN conjunct1] by (simp add: leaf_example_key)
  have k: "slot_key (leaf_fresh\<lparr>lp_data := take 68 (lp_data leaf_example) @ drop 68 (lp_data leaf_fresh),
                        lp_size := 1, lp_next_leaf := - 1\<rparr>) 0 = 5"
    using th [THEN conjunct2] by (simp add: leaf_example_key)
  show ?thesis
    by (intro conjI leaf_example_wf leaf_fresh_wf td ki n r k)
qed

section \<open>Index page lemmas\<close>

lemma index_capacity_eq: "index_capacity = 340"
  by (simp add: index_capacity_def DEFAULT_PAGE_SIZE_def sizeof_IndexPageHeader_def)

lemma insert_scan_spec:
  "pos0 \<le> n \<Longrightarrow>
   pos0 \<le> insert_scan keys key n pos0 \<and> insert_scan keys key n pos0 \<le> n \<and>
   (\<forall>i. pos0 \<le> i \<and> i < insert_scan keys key n pos0 \<longrightarrow> int_less (keys ! i) key) \<and>
   (insert_scan keys key n pos0 < n \<longrightarrow> \<not> int_less (keys ! insert_scan keys key n pos0) key)"
proof (induction keys key n pos0 rule: insert_scan.induct)
  case (1 keys key n pos)
  show ?case
  proof (cases "pos < n \<and> int_less (keys ! pos) key")
    case False
    then have "insert_scan keys key n pos = pos" by (simp add: insert_scan.simps)
    with False "1.prems" show ?thesis by auto
  next
    case True
    then have e: "insert_scan keys key n pos = insert_scan keys key n (pos + 1)"
      by (subst insert_scan.simps) simp
    have ih: "pos + 1 \<le> insert_scan keys key n (pos + 1) \<and> insert_scan keys key n (pos + 1) \<le> n \<and>
      (\<forall>i. pos + 1 \<le> i \<and> i < insert_scan keys key n (pos + 1) \<longrightarrow> int_less (keys ! i) key) \<and>
      (insert_scan keys key n (pos + 1) < n \<longrightarrow> \<not> int_less (keys ! insert_scan keys key n (pos + 1)) key)"
      using True by (intro "1.IH") simp_all
    have "int_less (keys ! i) key" if "pos \<le> i" "i < insert_scan keys key n (pos + 1)" for i
    proof (cases "i = pos")
      case True
      with \<open>pos < n \<and> int_less (keys ! pos) key\<close> show ?thesis by simp
    next
      case False
      with that have "pos + 1 \<le> i" by simp
      with ih that show ?thesis by blast
    qed
    with ih show ?thesis unfolding e by auto
  qed
qed

lemma shift_insert_elems:
  assumes "pos \<le> n" "n < length xs"
  shows "(if n > pos then memmove xs (pos + 1) pos (n - pos) else xs)[pos := v] =
           take pos xs @ v # take (n - pos) (drop pos xs) @ drop (n + 1) xs"
proof (cases "n > pos")
  case False
  with assms have "pos = n" by simp
  then show ?thesis using assms(2) by (simp add: upd_conv_take_nth_drop)
next
  case True
  have l: "length (take (n - pos) (drop pos xs)) = n - pos" using assms by simp
  have "memmove xs (pos + 1) pos (n - pos) =
          take (pos + 1) xs @ take (n - pos) (drop pos xs) @ drop (pos + 1 + (n - pos)) xs"
    unfolding memmove_def memcpy_def l ..
  also have "pos + 1 + (n - pos) = n + 1" using assms(1) by simp
  also have "take (pos + 1) xs = take pos xs @ [xs ! pos]"
    using assms True by (simp add: take_Suc_conv_app_nth)
  finally have m: "memmove xs (pos + 1) pos (n - pos) =
          (take pos xs @ [xs ! pos]) @ take (n - pos) (drop pos xs) @ drop (n + 1) xs" .
  have lp: "length (take pos xs) = pos" using assms by simp
  have "(take pos xs @ xs ! pos # take (n - pos) (drop pos xs) @ drop (n + 1) xs)
          [length (take pos xs) := v] =
        take pos xs @ v # take (n - pos) (drop pos xs) @ drop (n + 1) xs"
    by (rule list_update_length)
  then show ?thesis
    unfolding m lp by (simp only: True if_True append_assoc append_Cons append_Nil)
qed

lemma take_after_insert:
  assumes "pos \<le> n" "n < length xs"
  shows "take (n + 1) (take pos xs @ v # take (n - pos) (drop pos xs) @ drop (n + 1) xs) =
           take pos (take n xs) @ v # drop pos (take n xs)"
proof -
  let ?A = "take pos xs" and ?B = "take (n - pos) (drop pos xs)"
  have l: "length (?A @ v # ?B) = n + 1" using assms by simp
  have "take (length (?A @ v # ?B)) ((?A @ v # ?B) @ drop (n + 1) xs) = ?A @ v # ?B"
    by (rule append_eq_conv_conj [THEN iffD1, THEN conjunct1, symmetric]) (rule refl)
  then have "take (n + 1) (?A @ v # ?B @ drop (n + 1) xs) = ?A @ v # ?B"
    unfolding l by simp
  moreover have "take pos (take n xs) = ?A" using assms(1) by (simp add: min_def)
  moreover have "drop pos (take n xs) = ?B" by (simp add: drop_take)
  ultimately show ?thesis by simp
qed

section \<open>C2: insertion into an index page\<close>

text \<open>
  Claim C2. On a well-formed index page with \<open>size < capacity\<close>, \<^verbatim>\<open>IndexPage::insert\<close> finds
  the first position \<open>pos\<close> whose key is not less than the new key (\<open>pos = size\<close> when there is
  none), moves \<open>keys[pos..size)\<close> and \<open>children[pos+1..size+1)\<close> right by one, writes the key
  at \<open>keys[pos]\<close> and the child at \<open>children[pos+1]\<close>, increments the size, and returns
  whether the page is now full. So the keys in use become the old ones with the key inserted
  at \<open>pos\<close>, and the children in use the old ones with the child inserted at \<open>pos + 1\<close>.
\<close>

theorem IndexPage_insert_spec:
  fixes ip :: IndexPage and key :: i32 and child :: u64
  defines "n \<equiv> ip_size ip" and "keys \<equiv> ip_keys ip" and "children \<equiv> ip_children ip"
  assumes wf: "index_wf ip" and room: "ip_size ip < ip_capacity ip"
  shows "\<exists>pos ip'.
           pos \<le> n \<and> (\<forall>i<pos. int_less (keys ! i) key) \<and>
           (pos < n \<longrightarrow> \<not> int_less (keys ! pos) key) \<and>
           IndexPage_insert ip key child = (n + 1 = ip_capacity ip, ip') \<and>
           ip' = ip\<lparr>ip_keys := take pos keys @ key # take (n - pos) (drop pos keys) @
                                 drop (n + 1) keys,
                     ip_children := take (pos + 1) children @ child #
                                      take (n - pos) (drop (pos + 1) children) @
                                      drop (n + 2) children,
                     ip_size := n + 1\<rparr> \<and>
           valid_keys ip' = take pos (valid_keys ip) @ key # drop pos (valid_keys ip) \<and>
           valid_children ip' =
             take (pos + 1) (valid_children ip) @ child # drop (pos + 1) (valid_children ip)"
  unfolding n_def keys_def children_def
proof -
  let ?n = "ip_size ip" and ?keys = "ip_keys ip" and ?ch = "ip_children ip"
  let ?pos = "insert_scan ?keys key ?n 0"
  let ?ip' = "ip\<lparr>ip_keys := take ?pos ?keys @ key # take (?n - ?pos) (drop ?pos ?keys) @
                                 drop (?n + 1) ?keys,
                     ip_children := take (?pos + 1) ?ch @ child #
                                      take (?n - ?pos) (drop (?pos + 1) ?ch) @
                                      drop (?n + 2) ?ch,
                     ip_size := ?n + 1\<rparr>"
  have lk: "length ?keys = ip_capacity ip" and lc: "length ?ch = ip_capacity ip + 1"
    and cap: "ip_capacity ip = 340"
    using wf by (simp_all add: index_wf_def index_capacity_eq)
  have scan: "?pos \<le> ?n" "\<forall>i<?pos. int_less (?keys ! i) key"
    "?pos < ?n \<longrightarrow> \<not> int_less (?keys ! ?pos) key"
    using insert_scan_spec [of 0 ?n ?keys key] by simp_all
  have n1: "(?n + 1) mod 65536 = ?n + 1" using room cap by simp
  have k: "(if ?n > ?pos then memmove ?keys (?pos + 1) ?pos (?n - ?pos) else ?keys)[?pos := key] =
           take ?pos ?keys @ key # take (?n - ?pos) (drop ?pos ?keys) @ drop (?n + 1) ?keys"
    using scan(1) room lk by (intro shift_insert_elems) simp_all
  have "(if ?n + 1 > ?pos + 1 then memmove ?ch (?pos + 1 + 1) (?pos + 1) (?n + 1 - (?pos + 1)) else ?ch)
            [?pos + 1 := child] =
           take (?pos + 1) ?ch @ child # take (?n + 1 - (?pos + 1)) (drop (?pos + 1) ?ch) @
             drop (?n + 1 + 1) ?ch"
    using scan(1) room lc by (intro shift_insert_elems) simp_all
  moreover have "?pos + 1 + 1 = ?pos + 2" "?n + 1 - (?pos + 1) = ?n - ?pos" "?n + 1 + 1 = ?n + 2"
    by simp_all
  ultimately have c: "(if ?n + 1 > ?pos + 1 then memmove ?ch (?pos + 2) (?pos + 1) (?n - ?pos) else ?ch)
            [?pos + 1 := child] =
           take (?pos + 1) ?ch @ child # take (?n - ?pos) (drop (?pos + 1) ?ch) @ drop (?n + 2) ?ch"
    by (simp only:)
  have res: "IndexPage_insert ip key child = (?n + 1 = ip_capacity ip, ?ip')"
    using room unfolding IndexPage_insert_def Let_def k c n1 by simp
  have vk: "valid_keys ?ip' = take ?pos (valid_keys ip) @ key # drop ?pos (valid_keys ip)"
    using take_after_insert [OF scan(1), of ?keys key] room lk by (simp add: valid_keys_def)
  have vc: "valid_children ?ip' =
             take (?pos + 1) (valid_children ip) @ child # drop (?pos + 1) (valid_children ip)"
  proof -
    have "?pos + 1 \<le> ?n + 1" "?n + 1 < length ?ch" using scan(1) room lc by simp_all
    from take_after_insert [OF this, of child] show ?thesis
      by (simp add: valid_children_def)
  qed
  show "\<exists>pos ip'.
           pos \<le> ?n \<and> (\<forall>i<pos. int_less (?keys ! i) key) \<and>
           (pos < ?n \<longrightarrow> \<not> int_less (?keys ! pos) key) \<and>
           IndexPage_insert ip key child = (?n + 1 = ip_capacity ip, ip') \<and>
           ip' = ip\<lparr>ip_keys := take pos ?keys @ key # take (?n - pos) (drop pos ?keys) @
                                 drop (?n + 1) ?keys,
                     ip_children := take (pos + 1) ?ch @ child #
                                      take (?n - pos) (drop (pos + 1) ?ch) @
                                      drop (?n + 2) ?ch,
                     ip_size := ?n + 1\<rparr> \<and>
           valid_keys ip' = take pos (valid_keys ip) @ key # drop pos (valid_keys ip) \<and>
           valid_children ip' =
             take (pos + 1) (valid_children ip) @ child # drop (pos + 1) (valid_children ip)"
    by (intro exI [of _ ?pos] exI [of _ ?ip'] conjI scan res refl vk vc)
qed


lemma index_example_fields:
  "ip_capacity index_example = 340" "ip_size index_example = 3"
  "ip_keys index_example = [10, 20, 30] @ replicate 337 0"
  "ip_children index_example = [1, 2, 3, 4] @ replicate 337 0"
  "ip_index_children index_example = 0"
  by (simp_all add: index_example_def IndexPage_new_def index_capacity_eq)

lemma index_example_wf: "index_wf index_example"
  by (simp add: index_wf_def index_example_fields index_capacity_eq)

lemma index_example_valid:
  "valid_keys index_example = [10, 20, 30]" "valid_children index_example = [1, 2, 3, 4]"
  by (simp_all add: valid_keys_def valid_children_def index_example_fields)

theorem IndexPage_insert_spec_witness:
  "index_wf index_example \<and> ip_size index_example < ip_capacity index_example \<and>
   (\<exists>ip'. IndexPage_insert index_example 25 9 = (False, ip') \<and>
          ip_size ip' = 4 \<and>
          valid_keys ip' = [10, 20, 25, 30] \<and> valid_children ip' = [1, 2, 3, 9, 4])"
proof -
  have room: "ip_size index_example < ip_capacity index_example"
    by (simp add: index_example_fields)
  from IndexPage_insert_spec [OF index_example_wf room, of 25 9]
  obtain pos ip' where le: "pos \<le> ip_size index_example"
    and lo: "\<forall>i<pos. int_less (ip_keys index_example ! i) 25"
    and hi: "pos < ip_size index_example \<longrightarrow> \<not> int_less (ip_keys index_example ! pos) 25"
    and r: "IndexPage_insert index_example 25 9 =
              (ip_size index_example + 1 = ip_capacity index_example, ip')"
    and sz: "ip' = index_example\<lparr>ip_keys := take pos (ip_keys index_example) @ 25 # take (ip_size index_example - pos) (drop pos (ip_keys index_example)) @
                                 drop (ip_size index_example + 1) (ip_keys index_example),
                     ip_children := take (pos + 1) (ip_children index_example) @ 9 #
                                      take (ip_size index_example - pos) (drop (pos + 1) (ip_children index_example)) @
                                      drop (ip_size index_example + 2) (ip_children index_example),
                     ip_size := ip_size index_example + 1\<rparr>"
    and vk: "valid_keys ip' = take pos (valid_keys index_example) @ 25 # drop pos (valid_keys index_example)"
    and vc: "valid_children ip' =
             take (pos + 1) (valid_children index_example) @ 9 # drop (pos + 1) (valid_children index_example)"
    by (elim exE conjE)
  have "pos \<le> 3" using le by (simp add: index_example_fields)
  then consider "pos = 0" | "pos = 1" | "pos = 2" | "pos = 3" by linarith
  then have p: "pos = 2"
  proof cases
    case 1
    with hi show ?thesis by (simp add: index_example_fields int_less_def)
  next
    case 2
    with hi show ?thesis by (simp add: index_example_fields int_less_def)
  next
    case 3
    then show ?thesis .
  next
    case 4
    with lo have "int_less (ip_keys index_example ! 2) 25" by simp
    then show ?thesis by (simp add: index_example_fields int_less_def)
  qed
  have "IndexPage_insert index_example 25 9 = (False, ip')"
    using r by (simp add: index_example_fields)
  moreover have "ip_size ip' = 4" by (simp add: sz index_example_fields)
  moreover have "valid_keys ip' = [10, 20, 25, 30]"
    unfolding vk p index_example_valid by simp
  moreover have "valid_children ip' = [1, 2, 3, 9, 4]"
    unfolding vc p index_example_valid by simp
  ultimately show ?thesis using index_example_wf room by blast
qed


lemma memcpy_front:
  assumes "m + c \<le> length xs"
  shows "(if c > 0 then memcpy ys 0 (take c (drop m xs)) else ys) =
           take c (drop m xs) @ drop c ys"
proof -
  have l: "length (take c (drop m xs)) = c" using assms by simp
  show ?thesis
  proof (cases "c > 0")
    case True
    then show ?thesis unfolding memcpy_def l by simp
  next
    case False
    then show ?thesis by simp
  qed
qed

lemma take_front:
  assumes "m + c \<le> length xs"
  shows "take c (take c (drop m xs) @ ys) = take c (drop m xs)"
proof -
  have "length (take c (drop m xs)) = c" using assms by simp
  then show ?thesis by simp
qed

lemma take_split_mid:
  assumes "mid < n" "n \<le> length xs"
  shows "take n xs = take mid xs @ xs ! mid # take (n - mid - 1) (drop (mid + 1) xs)"
proof -
  have "take n xs = take mid (take n xs) @ take n xs ! mid # drop (Suc mid) (take n xs)"
    using assms by (intro id_take_nth_drop) simp
  then show ?thesis using assms by (simp add: min_def drop_take)
qed

section \<open>C4: splitting an index page\<close>

text \<open>
  Claim C4. On a well-formed index page with \<open>n = size > 0\<close> and \<open>mid = n div 2\<close>, with a
  well-formed new page, \<^verbatim>\<open>IndexPage::split\<close> returns \<open>keys[mid]\<close>, sets the page's size to
  \<open>mid\<close> (nothing else of it changes), and gives the new page \<open>keys[mid+1..n)\<close> from its
  index 0, \<open>children[mid+1..n+1)\<close> from its index 0, size \<open>n - mid - 1\<close> and the page's
  \<^verbatim>\<open>index_children\<close>. The keys in use before the split are the left page's keys, then the
  promoted key, then the new page's keys; so the promoted key's position belongs to neither
  half, and when the keys are distinct its value occurs in neither half.
\<close>

theorem IndexPage_split_spec:
  fixes ip new_page :: IndexPage
  defines "n \<equiv> ip_size ip" and "mid \<equiv> ip_size ip div 2"
    and "keys \<equiv> ip_keys ip" and "children \<equiv> ip_children ip"
  defines "ip' \<equiv> ip\<lparr>ip_size := mid\<rparr>"
    and "new_page' \<equiv>
           new_page\<lparr>ip_keys := take (n - mid - 1) (drop (mid + 1) keys) @
                                  drop (n - mid - 1) (ip_keys new_page),
                      ip_children := take (n - mid) (drop (mid + 1) children) @
                                       drop (n - mid) (ip_children new_page),
                      ip_size := n - mid - 1,
                      ip_index_children := ip_index_children ip\<rparr>"
  assumes wf: "index_wf ip" and wf': "index_wf new_page" and pos: "0 < ip_size ip"
  shows "IndexPage_split ip new_page = (keys ! mid, ip', new_page') \<and>
         valid_keys ip = valid_keys ip' @ keys ! mid # valid_keys new_page' \<and>
         valid_children ip = valid_children ip' @ valid_children new_page' \<and>
         (distinct (valid_keys ip) \<longrightarrow>
            keys ! mid \<notin> set (valid_keys ip') \<union> set (valid_keys new_page'))"
  unfolding ip'_def new_page'_def n_def mid_def keys_def children_def
proof -
  let ?n = "ip_size ip" and ?mid = "ip_size ip div 2" and ?keys = "ip_keys ip"
    and ?ch = "ip_children ip"
  let ?ip' = "ip\<lparr>ip_size := ?mid\<rparr>"
  let ?np = "new_page\<lparr>ip_keys := take (?n - ?mid - 1) (drop (?mid + 1) ?keys) @
                                  drop (?n - ?mid - 1) (ip_keys new_page),
                      ip_children := take (?n - ?mid) (drop (?mid + 1) ?ch) @
                                       drop (?n - ?mid) (ip_children new_page),
                      ip_size := ?n - ?mid - 1,
                      ip_index_children := ip_index_children ip\<rparr>"
  have lk: "length ?keys = ip_capacity ip" and lc: "length ?ch = ip_capacity ip + 1"
    and cap: "ip_capacity ip = 340" and ncap: "?n \<le> ip_capacity ip"
    using wf by (simp_all add: index_wf_def index_capacity_eq)
  have mid: "?mid < ?n" using pos by simp
  have m16: "?mid mod 65536 = ?mid" using ncap cap by simp
  have "int ?n - int ?mid - 1 = int (?n - ?mid - 1)" using mid by simp
  moreover have "?n - ?mid - 1 < 65536" using ncap cap by simp
  ultimately have r16: "nat ((int ?n - int ?mid - 1) mod 65536) = ?n - ?mid - 1"
    by (simp add: nat_mod_distrib)
  have r1: "?n - ?mid - 1 + 1 = ?n - ?mid" using mid by simp
  have kb: "?mid + 1 + (?n - ?mid - 1) \<le> length ?keys" using mid ncap lk by simp
  have cb: "?mid + 1 + (?n - ?mid) \<le> length ?ch" using mid ncap lc by simp
  have res: "IndexPage_split ip new_page = (?keys ! ?mid, ?ip', ?np)"
    unfolding IndexPage_split_def Let_def m16 r16 r1 memcpy_front [OF kb] memcpy_front [OF cb]
    by (rule refl)
  have vk': "valid_keys ?ip' = take ?mid ?keys" by (simp add: valid_keys_def)
  have nps: "ip_size ?np = ?n - ?mid - 1"
    "ip_keys ?np = take (?n - ?mid - 1) (drop (?mid + 1) ?keys) @
                     drop (?n - ?mid - 1) (ip_keys new_page)"
    "ip_children ?np = take (?n - ?mid) (drop (?mid + 1) ?ch) @
                         drop (?n - ?mid) (ip_children new_page)"
    by simp_all
  have vkn: "valid_keys ?np = take (?n - ?mid - 1) (drop (?mid + 1) ?keys)"
    unfolding valid_keys_def nps by (rule take_front [OF kb])
  have vkf: "valid_keys ip = take ?n ?keys" by (simp add: valid_keys_def)
  have vk: "valid_keys ip = valid_keys ?ip' @ ?keys ! ?mid # valid_keys ?np"
    unfolding vk' vkn vkf
    using mid ncap lk by (intro take_split_mid) simp_all
  have vc: "valid_children ip = valid_children ?ip' @ valid_children ?np"
  proof -
    have "valid_children ?np = take (?n - ?mid) (drop (?mid + 1) ?ch)"
      unfolding valid_children_def nps r1 by (rule take_front [OF cb])
    moreover have "valid_children ?ip' = take (?mid + 1) ?ch" by (simp add: valid_children_def)
    moreover have "take (?n + 1) ?ch = take (?mid + 1) ?ch @ take (?n - ?mid) (drop (?mid + 1) ?ch)"
    proof -
      have "?n + 1 = (?mid + 1) + (?n - ?mid)" using mid by simp
      then show ?thesis by (metis take_add)
    qed
    ultimately show ?thesis by (simp add: valid_children_def)
  qed
  have d: "?keys ! ?mid \<notin> set (valid_keys ?ip') \<union> set (valid_keys ?np)"
    if "distinct (valid_keys ip)"
    using that unfolding vk by simp
  show "IndexPage_split ip new_page = (?keys ! ?mid, ?ip', ?np) \<and>
         valid_keys ip = valid_keys ?ip' @ ?keys ! ?mid # valid_keys ?np \<and>
         valid_children ip = valid_children ?ip' @ valid_children ?np \<and>
         (distinct (valid_keys ip) \<longrightarrow>
            ?keys ! ?mid \<notin> set (valid_keys ?ip') \<union> set (valid_keys ?np))"
    by (intro conjI impI res vk vc d)
qed


lemma index_fresh_wf: "index_wf index_fresh"
  by (simp add: index_wf_def index_fresh_def IndexPage_new_def index_capacity_eq)

theorem IndexPage_split_spec_witness:
  "index_wf index_example \<and> index_wf index_fresh \<and> 0 < ip_size index_example \<and>
   distinct (valid_keys index_example) \<and>
   (\<exists>ip' new_page'.
      IndexPage_split index_example index_fresh = (20, ip', new_page') \<and>
      valid_keys ip' = [10] \<and> valid_keys new_page' = [30] \<and>
      valid_children ip' = [1, 2] \<and> valid_children new_page' = [3, 4] \<and>
      20 \<notin> set (valid_keys ip') \<union> set (valid_keys new_page'))"
proof -
  have pos: "0 < ip_size index_example" by (simp add: index_example_fields)
  have dist: "distinct (valid_keys index_example)" by (simp add: index_example_valid)
  have mid: "ip_size index_example div 2 = 1" by (simp add: index_example_fields)
  have k: "ip_keys index_example ! 1 = 20" by (simp add: index_example_fields)
  note th = IndexPage_split_spec [OF index_example_wf index_fresh_wf pos, unfolded mid k]
  let ?ip' = "index_example\<lparr>ip_size := 1\<rparr>"
  let ?np = "index_fresh
        \<lparr>ip_keys := take (ip_size index_example - 1 - 1) (drop (1 + 1) (ip_keys index_example)) @
                    drop (ip_size index_example - 1 - 1) (ip_keys index_fresh),
         ip_children := take (ip_size index_example - 1) (drop (1 + 1) (ip_children index_example)) @
                        drop (ip_size index_example - 1) (ip_children index_fresh),
         ip_size := ip_size index_example - 1 - 1,
         ip_index_children := ip_index_children index_example\<rparr>"
  have r: "IndexPage_split index_example index_fresh = (20, ?ip', ?np)"
    by (rule th [THEN conjunct1])
  have nm: "20 \<notin> set (valid_keys ?ip') \<union> set (valid_keys ?np)"
    using th [THEN conjunct2, THEN conjunct2, THEN conjunct2] dist by (rule mp)
  have v: "valid_keys ?ip' = [10]" "valid_keys ?np = [30]"
    "valid_children ?ip' = [1, 2]" "valid_children ?np = [3, 4]"
    by (simp_all add: valid_keys_def valid_children_def index_example_fields)
  show ?thesis
    by (intro conjI exI [of _ ?ip'] exI [of _ ?np] index_example_wf index_fresh_wf pos dist r v nm)
qed

section \<open>Heap page lemmas\<close>






























section \<open>C5: capacity and bitmap of a heap page\<close>








section \<open>C9: an incompatible tuple is rejected before anything changes\<close>

text \<open>
  Claim C9. For every heap file, every state of the database and every tuple that is not
  compatible with the file's schema, \<^verbatim>\<open>HeapFile::insertTuple\<close> throws \<^verbatim>\<open>std::logic_error\<close> and
  leaves the file object (so \<^verbatim>\<open>numPages\<close>) and the whole database (every frame of the pool, the
  dirty set, the files on disk and their audit trails) as they were.
\<close>

theorem HeapFile_insertTuple_incompatible:
  assumes "\<not> compatible (hf_td hf) t"
  shows "HeapFile_insertTuple hf db t = (Some LogicError, hf, db)"
  using assms by (simp add: HeapFile_insertTuple_def)

theorem HeapFile_insertTuple_incompatible_witness:
  "\<not> compatible (hf_td heapfile_example) [IntF 1] \<and>
   HeapFile_insertTuple heapfile_example db_example [IntF 1] =
     (Some LogicError, heapfile_example, db_example)"
proof -
  have c: "\<not> compatible (hf_td heapfile_example) [IntF 1]"
    by (simp add: compatible_def heapfile_example_def td_example_def)
  from HeapFile_insertTuple_incompatible [OF c] c show ?thesis by simp
qed

section \<open>C10: \<^verbatim>\<open>next\<close> on an iterator past the last page\<close>

text \<open>
  Claim C10. For every heap file, \<^verbatim>\<open>HeapFile::next\<close> on an iterator whose page number is at
  least \<^verbatim>\<open>numPages\<close> throws nothing, touches nothing in the database and sets the iterator to
  \<open>(numPages, 0)\<close>, which is the iterator \<^verbatim>\<open>HeapFile::end()\<close> returns.
\<close>

theorem HeapFile_next_past_end:
  assumes "it_page it \<ge> hf_numPages hf"
  shows "HeapFile_next hf db it = (None, \<lparr>it_page = hf_numPages hf, it_slot = 0\<rparr>, db) \<and>
         fst (snd (HeapFile_next hf db it)) = HeapFile_end hf"
  using assms by (simp add: HeapFile_next_def HeapFile_end_def)

theorem HeapFile_next_past_end_witness:
  "it_page \<lparr>it_page = 5, it_slot = 7\<rparr> \<ge> hf_numPages heapfile_example \<and>
   HeapFile_next heapfile_example db_example \<lparr>it_page = 5, it_slot = 7\<rparr> =
     (None, \<lparr>it_page = 2, it_slot = 0\<rparr>, db_example) \<and>
   HeapFile_end heapfile_example = \<lparr>it_page = 2, it_slot = 0\<rparr>"
proof -
  have n: "hf_numPages heapfile_example = 2" by (simp add: heapfile_example_def)
  have a: "it_page \<lparr>it_page = 5, it_slot = 7\<rparr> \<ge> hf_numPages heapfile_example"
    by (simp add: n)
  from HeapFile_next_past_end [OF a, of db_example] a show ?thesis
    by (simp add: n HeapFile_end_def)
qed

section \<open>Buffer pool lemmas\<close>



lemma pool_inv_pool:
  "bufferPool db' = bufferPool db \<Longrightarrow> pool_inv N db' = pool_inv N db"
  by (simp add: pool_inv_def)

















text \<open>
  Page offsets: below \<open>2 ^ 51\<close> the offset of a page is its number times the page size; page
  \<open>2 ^ 51\<close> has a negative \<^verbatim>\<open>off_t\<close>, and page \<open>n + 2 ^ 52\<close> has the offset of page \<open>n\<close>.
\<close>

lemma page_offset_small:
  assumes "n < 2 ^ 51"
  shows "page_offset n = n * DEFAULT_PAGE_SIZE" and "\<not> 2 ^ 63 \<le> page_offset n"
    and "page_offset n div DEFAULT_PAGE_SIZE = n"
proof -
  have "n * 4096 < 2 ^ 51 * 4096" using assms by simp
  then have lt: "n * 4096 < (2::nat) ^ 63" by simp
  then have "n * 4096 < (2::nat) ^ 64" by simp
  then show e: "page_offset n = n * DEFAULT_PAGE_SIZE"
    by (simp add: page_offset_def DEFAULT_PAGE_SIZE_def)
  show "\<not> 2 ^ 63 \<le> page_offset n" unfolding e using lt by (simp add: DEFAULT_PAGE_SIZE_def)
  show "page_offset n div DEFAULT_PAGE_SIZE = n" unfolding e by (simp add: DEFAULT_PAGE_SIZE_def)
qed

lemma page_offset_alias: "page_offset (n + 2 ^ 52) = page_offset n"
proof -
  have "(n + 2 ^ 52) * 4096 = n * 4096 + (2::nat) ^ 64" by (simp add: algebra_simps)
  then show ?thesis by (simp add: page_offset_def DEFAULT_PAGE_SIZE_def)
qed




lemma writePage_complete:
  assumes "n < 2 ^ 51" "f_os f (f_calls f) = IoBytes k" "DEFAULT_PAGE_SIZE \<le> k"
  shows "DbFile_writePage f page n =
           (None, f\<lparr>f_writes := f_writes f @ [n], f_calls := f_calls f + 1,
                     f_pages := (f_pages f)(n := page)\<rparr>)"
  using assms(2,3) page_offset_small [OF assms(1)]
  by (simp add: DbFile_writePage_def positional_call_def Let_def)





















lemma writePage_ok:
  "n < 2 ^ 51 \<Longrightarrow> f_os f (f_calls f) = IoBytes DEFAULT_PAGE_SIZE \<Longrightarrow>
   DbFile_writePage f page n =
     (None, f\<lparr>f_writes := f_writes f @ [n], f_calls := f_calls f + 1,
               f_pages := (f_pages f)(n := page)\<rparr>)"
  by (rule writePage_complete [where k = DEFAULT_PAGE_SIZE]) simp_all


section \<open>C6: what \<^verbatim>\<open>getPage\<close> does\<close>




section \<open>C7: the invariant of the pool\<close>





end
